theory Spec2Isabelle
  imports Main "HOL-Library.Char_ord" "HOL-Library.List_Lexorder" "HOL-Library.Product_Lexorder"
    "HOL-Library.AList"
begin

section \<open>JavaScript values, numbers and their string forms\<close>

text \<open>
  The backend \<^verbatim>\<open>lib/CardDAV/backends/redis.js\<close> talks to a Redis store through the
  node client. Redis holds byte strings; the client turns every command argument that is
  not a string into one with \<^verbatim>\<open>String(arg)\<close> and hands bulk replies back as strings
  (\<^verbatim>\<open>null\<close> for a nil reply). The values the backend handles are therefore strings,
  \<^verbatim>\<open>null\<close>, \<^verbatim>\<open>undefined\<close> (an array read out of range) and numbers.

  A JavaScript number is an IEEE double. The numbers the backend computes with are the
  ctags: \<^verbatim>\<open>parseInt\<close> reads one from its decimal text, \<^verbatim>\<open>++\<close> adds one, \<^verbatim>\<open>String\<close>
  writes it back. They are whole numbers, so a number is modelled as the integer it is,
  with the rounding to a double written out: every integer up to \<open>2^53\<close> is a double,
  beyond it only every second, fourth, ... one. The ids, the integer replies of
  \<^verbatim>\<open>INCR\<close>, are counted exactly.
\<close>

datatype jsval = Undefined | Null | Str string | Number int

text \<open>A number: \<^verbatim>\<open>NaN\<close>, an integer that is a double, or an infinity.\<close>

datatype jsnum = NaN | Num int | PlusInfinity | MinusInfinity

definition digit_char :: "nat \<Rightarrow> char" where
  "digit_char d = char_of (48 + d)"

definition is_digit :: "char \<Rightarrow> bool" where
  "is_digit c = (48 \<le> (of_char c :: nat) \<and> (of_char c :: nat) \<le> 57)"

definition digit_val :: "char \<Rightarrow> nat" where
  "digit_val c = of_char c - 48"

text \<open>The decimal digits of a non-negative integer.\<close>

fun string_of_nat :: "nat \<Rightarrow> string" where
  "string_of_nat n =
     (if n < 10 then [digit_char n]
      else string_of_nat (n div 10) @ [digit_char (n mod 10)])"

declare string_of_nat.simps [simp del]

subsection \<open>Rounding to a double\<close>

text \<open>The number of binary digits of \<open>n\<close>.\<close>

fun bits :: "nat \<Rightarrow> nat" where
  "bits n = (if n = 0 then 0 else Suc (bits (n div 2)))"

declare bits.simps [simp del]

text \<open>
  The double nearest to the integer \<open>m\<close>, ties to the even significand (53 binary
  digits); \<open>None\<close> when the result is beyond the largest double, that is infinite.
\<close>

definition round_double :: "nat \<Rightarrow> nat option" where
  "round_double m =
     (if bits m \<le> 53 then Some m
      else let e = bits m - 53; q = m div 2 ^ e; r = m mod 2 ^ e; h = 2 ^ (e - 1);
               q' = (if h < r \<or> (r = h \<and> odd q) then q + 1 else q)
           in if 2 ^ 1024 \<le> q' * 2 ^ e then None else Some (q' * 2 ^ e))"

definition to_number :: "int \<Rightarrow> jsnum" where
  "to_number k =
     (case round_double (nat \<bar>k\<bar>) of
        None \<Rightarrow> if k < 0 then MinusInfinity else PlusInfinity
      | Some m \<Rightarrow> Num (if k < 0 then - int m else int m))"

subsection \<open>\<^verbatim>\<open>String\<close> of a number\<close>

text \<open>
  \<^verbatim>\<open>String(m)\<close> takes the fewest decimal digits \<open>s\<close> (\<open>k\<close> of them) and the exponent
  \<open>n\<close> such that \<open>s * 10^(n - k)\<close> still rounds to the double \<open>m\<close>, the closest such
  \<open>s\<close> among several. Up to \<open>10^21\<close> it prints the digits followed by \<open>n - k\<close> zeros,
  from there on the exponent form.
\<close>

definition digit_candidates :: "nat \<Rightarrow> nat \<Rightarrow> nat \<Rightarrow> (nat \<times> nat) list" where
  "digit_candidates m k n =
     [(n, s). s \<leftarrow> [m div 10 ^ (n - k), m div 10 ^ (n - k) + 1],
              10 ^ (k - 1) \<le> s \<and> s < 10 ^ k \<and> round_double (s * 10 ^ (n - k)) = Some m]"

definition distance :: "nat \<Rightarrow> nat \<Rightarrow> nat" where
  "distance a b = (if a \<le> b then b - a else a - b)"

fun closest :: "nat \<Rightarrow> nat \<Rightarrow> (nat \<times> nat) list \<Rightarrow> nat \<times> nat" where
  "closest m k [] = (k, m)"
| "closest m k [c] = c"
| "closest m k (c # d # cs) =
     (let b = closest m k (d # cs);
          dc = distance (snd c * 10 ^ (fst c - k)) m;
          db = distance (snd b * 10 ^ (fst b - k)) m
      in if dc < db \<or> (dc = db \<and> even (snd c)) then c else b)"

function shortest_digits :: "nat \<Rightarrow> nat \<Rightarrow> nat \<times> nat \<times> nat" where
  "shortest_digits m k =
     (let len = length (string_of_nat m);
          cs = digit_candidates m k len @ digit_candidates m k (len + 1)
      in if cs = [] \<and> k < len then shortest_digits m (Suc k) else (k, closest m k cs))"
  by pat_completeness auto
termination
  by (relation "measure (\<lambda>(m, k). length (string_of_nat m) - k)") auto

declare shortest_digits.simps [simp del]

text \<open>
  Up to \<open>2^53\<close> every integer is a double of its own, and the fewest digits that round
  to it are its decimal digits.
\<close>

definition number_text :: "nat \<Rightarrow> string" where
  "number_text m =
     (if m \<le> 2 ^ 53 then string_of_nat m
      else let (k, n, s) = shortest_digits m 1; ds = string_of_nat s in
        if n \<le> 21 then ds @ replicate (n - k) (CHR ''0'')
        else hd ds # (if k = 1 then [] else CHR ''.'' # tl ds) @ ''e+'' @ string_of_nat (n - 1))"

fun String_num :: "jsnum \<Rightarrow> string" where
  "String_num NaN = ''NaN''"
| "String_num (Num k) = (if k < 0 then CHR ''-'' # number_text (nat (- k)) else number_text (nat k))"
| "String_num PlusInfinity = ''Infinity''"
| "String_num MinusInfinity = ''-Infinity''"

text \<open>\<^verbatim>\<open>String(x)\<close> as the client applies it to a command argument.\<close>

fun String_val :: "jsval \<Rightarrow> string" where
  "String_val Undefined = ''undefined''"
| "String_val Null = ''null''"
| "String_val (Str s) = s"
| "String_val (Number k) = String_num (to_number k)"

subsection \<open>\<^verbatim>\<open>parseInt\<close> and \<^verbatim>\<open>++\<close>\<close>

definition digits_value :: "string \<Rightarrow> nat" where
  "digits_value ds = foldl (\<lambda>a c. 10 * a + digit_val c) 0 ds"

definition is_space :: "char \<Rightarrow> bool" where
  "is_space c = ((of_char c :: nat) \<in> {9, 10, 11, 12, 13, 32})"

text \<open>
  \<^verbatim>\<open>parseInt(s, 10)\<close>: leading white space is skipped, one sign is read, then the
  longest run of decimal digits; no digit at all gives \<^verbatim>\<open>NaN\<close>. The value of the run
  is rounded to a double.
\<close>

definition parseInt :: "string \<Rightarrow> jsnum" where
  "parseInt s =
     (let t = dropWhile is_space s;
          neg = (t \<noteq> [] \<and> hd t = CHR ''-'');
          u = (if t \<noteq> [] \<and> (hd t = CHR ''-'' \<or> hd t = CHR ''+'') then tl t else t);
          z = takeWhile is_digit u
      in if z = [] then NaN
         else to_number ((if neg then - 1 else 1) * int (digits_value z)))"

text \<open>
  The prefix increment \<^verbatim>\<open>++ctag\<close>: the sum is rounded to a double, so from \<open>2^53\<close>
  on adding one changes nothing.
\<close>

fun js_incr :: "jsnum \<Rightarrow> jsnum" where
  "js_incr NaN = NaN"
| "js_incr (Num k) = to_number (k + 1)"
| "js_incr PlusInfinity = PlusInfinity"
| "js_incr MinusInfinity = MinusInfinity"

text \<open>An array read \<^verbatim>\<open>data[i]\<close>: \<^verbatim>\<open>undefined\<close> out of range.\<close>

definition js_at :: "jsval list \<Rightarrow> nat \<Rightarrow> jsval" where
  "js_at xs i = (if i < length xs then xs ! i else Undefined)"

subsection \<open>The serialised id set\<close>

text \<open>
  The principal index holds \<^verbatim>\<open>JSON.stringify(ids)\<close> for an array of numeric ids.
\<close>

fun join_commas :: "string list \<Rightarrow> string" where
  "join_commas [] = []"
| "join_commas [x] = x"
| "join_commas (x # y # ys) = x @ CHR '','' # join_commas (y # ys)"

definition JSON_stringify :: "nat list \<Rightarrow> string" where
  "JSON_stringify ids = CHR ''['' # join_commas (map string_of_nat ids) @ '']''"

datatype error = BadRequest string | TypeError | SyntaxError

text \<open>
  What \<^verbatim>\<open>JSON.parse(res.toString("utf8"))\<close> yields. The model reads the texts
  \<^verbatim>\<open>JSON.stringify\<close> writes for an id array (\<open>IdArray\<close>), and recognises texts that no
  JSON value can start (\<open>Raised SyntaxError\<close>). Every other text may be JSON of another
  shape; what the backend does with it is not modelled (\<open>OtherJSON\<close>).
\<close>

datatype parsed = Raised error | IdArray "nat list" | OtherJSON

fun split_commas :: "string \<Rightarrow> string \<Rightarrow> string list" where
  "split_commas acc [] = [rev acc]"
| "split_commas acc (c # cs) =
     (if c = CHR '','' then rev acc # split_commas [] cs else split_commas (c # acc) cs)"

text \<open>A JSON integer literal without sign, fraction or exponent.\<close>

definition is_number_literal :: "string \<Rightarrow> bool" where
  "is_number_literal w =
     (w \<noteq> [] \<and> list_all is_digit w \<and> (if hd w = CHR ''0'' then length w = 1 else True))"

definition id_array_text :: "string \<Rightarrow> nat list option" where
  "id_array_text s =
     (if 2 \<le> length s \<and> hd s = CHR ''['' \<and> last s = CHR '']''
      then let body = butlast (tl s) in
        if body = [] then Some []
        else let ws = split_commas [] body in
          if list_all is_number_literal ws then Some (map digits_value ws) else None
      else None)"

definition json_start :: "char \<Rightarrow> bool" where
  "json_start c = (is_digit c \<or> c \<in> set ''[{-tfn'' \<or> c = CHR 0x22)"

definition JSON_parse :: "string \<Rightarrow> parsed" where
  "JSON_parse s =
     (case id_array_text s of
        Some ids \<Rightarrow> IdArray ids
      | None \<Rightarrow>
          (case dropWhile (\<lambda>c. (of_char c :: nat) \<in> {9, 10, 13, 32}) s of
             [] \<Rightarrow> Raised SyntaxError
           | c # _ \<Rightarrow> if json_start c then OtherJSON else Raised SyntaxError))"

text \<open>
  \<^verbatim>\<open>JSON.parse(res.toString("utf8"))\<close> on a bulk reply: a nil reply is \<^verbatim>\<open>null\<close>, and
  \<^verbatim>\<open>null.toString\<close> raises a TypeError.
\<close>

definition parse_reply :: "string option \<Rightarrow> parsed" where
  "parse_reply res = (case res of None \<Rightarrow> Raised TypeError | Some r \<Rightarrow> JSON_parse r)"

section \<open>The Redis store\<close>

text \<open>
  Hashes, sorted sets and integer counters, each keyed by the Redis key. An absent key is
  the empty hash, the empty sorted set, no counter. A sorted set is kept as the list
  \<^verbatim>\<open>ZRANGE key 0 -1\<close> walks: pairs (score, member) in ascending order. The keys the
  backend builds for the three kinds never coincide (section Keys), so replies of the
  wrong type do not arise; the store is assumed to answer every command (\<^verbatim>\<open>err\<close> is
  \<^verbatim>\<open>null\<close>). Redis runs one command, or one \<^verbatim>\<open>MULTI\<close> batch, at a time.
\<close>

record store =
  hashes :: "string \<Rightarrow> string \<rightharpoonup> string"
  zsets :: "string \<Rightarrow> (nat \<times> string) list"
  counters :: "string \<rightharpoonup> nat"

definition empty_store :: store where
  "empty_store = \<lparr>hashes = (\<lambda>_. Map.empty), zsets = (\<lambda>_. []), counters = Map.empty\<rparr>"

definition hget :: "store \<Rightarrow> string \<Rightarrow> string \<Rightarrow> string option" where
  "hget s k f = hashes s k f"

definition hmget :: "store \<Rightarrow> string \<Rightarrow> string list \<Rightarrow> string option list" where
  "hmget s k fs = map (hashes s k) fs"

definition zrange_all :: "store \<Rightarrow> string \<Rightarrow> string option list" where
  "zrange_all s k = map (\<lambda>p. Some (snd p)) (zsets s k)"

definition incr :: "string \<Rightarrow> store \<Rightarrow> nat \<times> store" where
  "incr k s =
     (let n = (case counters s k of None \<Rightarrow> 0 | Some c \<Rightarrow> c) + 1
      in (n, s\<lparr>counters := (counters s)(k \<mapsto> n)\<rparr>))"

datatype command =
    HSET string string string
  | HMSET string "(string \<times> string) list"
  | DEL string
  | ZADD string nat string
  | ZREM string string

fun exec_command :: "command \<Rightarrow> store \<Rightarrow> store" where
  "exec_command (HSET k f v) s = s\<lparr>hashes := (hashes s)(k := (hashes s k)(f \<mapsto> v))\<rparr>"
| "exec_command (HMSET k fvs) s =
     s\<lparr>hashes := (hashes s)(k := fold (\<lambda>(f, v) h. h(f \<mapsto> v)) fvs (hashes s k))\<rparr>"
| "exec_command (DEL k) s =
     s\<lparr>hashes := (hashes s)(k := Map.empty), zsets := (zsets s)(k := []),
       counters := (counters s)(k := None)\<rparr>"
| "exec_command (ZADD k sc m) s =
     s\<lparr>zsets := (zsets s)(k := insort (sc, m) (filter (\<lambda>p. snd p \<noteq> m) (zsets s k)))\<rparr>"
| "exec_command (ZREM k m) s =
     s\<lparr>zsets := (zsets s)(k := filter (\<lambda>p. snd p \<noteq> m) (zsets s k))\<rparr>"

text \<open>\<^verbatim>\<open>redis.multi(commands).exec\<close>: the commands run back to back, in order.\<close>

definition multi_exec :: "command list \<Rightarrow> store \<Rightarrow> store" where
  "multi_exec commands s = fold exec_command commands s"

text \<open>A batch of \<^verbatim>\<open>HMGET\<close> commands, one reply row per command.\<close>

definition multi_hmget :: "(string \<times> string list) list \<Rightarrow> store \<Rightarrow> string option list list" where
  "multi_hmget commands s = map (\<lambda>(k, fs). hmget s k fs) commands"

section \<open>The CardDAV backend\<close>

text \<open>
  The table names \<^verbatim>\<open>initialize\<close> falls back to. Address book ids are the numbers
  \<^verbatim>\<open>INCR\<close> hands out; a key is the concatenation the source writes, the id rendered
  in decimal.
\<close>

definition addressBooksTableName :: string where
  "addressBooksTableName = ''addressbooks''"

definition cardsTableName :: string where
  "cardsTableName = ''cards''"

definition principalIndexKey :: string where
  "principalIndexKey = addressBooksTableName @ ''/pricipalUri''"

definition idKey :: string where
  "idKey = addressBooksTableName @ ''/ID''"

definition addressBookKey :: "nat \<Rightarrow> string" where
  "addressBookKey addressBookId = addressBooksTableName @ ''/'' @ string_of_nat addressBookId"

definition bookCardsKey :: "nat \<Rightarrow> string" where
  "bookCardsKey addressBookId =
     addressBooksTableName @ ''/'' @ string_of_nat addressBookId @ ''/'' @ cardsTableName"

definition cardKey :: "nat \<Rightarrow> string \<Rightarrow> string" where
  "cardKey addressBookId cardUri =
     cardsTableName @ ''/'' @ string_of_nat addressBookId @ ''/'' @ cardUri"

text \<open>
  Modelled from the spec: the constant \<^verbatim>\<open>jsCardDAV_Plugin.NS_CARDDAV\<close> is declared in
  \<^verbatim>\<open>lib/CardDAV/plugin.js\<close>, which is not among the sources; it is the CardDAV
  namespace, and only the property name built from it matters.
\<close>

definition NS_CARDDAV :: string where
  "NS_CARDDAV = ''urn:ietf:params:xml:ns:carddav''"

definition displayname_property :: string where
  "displayname_property = ''{DAV:}displayname''"

definition description_property :: string where
  "description_property = ''{'' @ NS_CARDDAV @ ''}addressbook-description''"

text \<open>
  Modelled from the spec: \<^verbatim>\<open>Db.fromMultiBulk\<close> lives in \<^verbatim>\<open>lib/shared/db.js\<close>, which is
  not among the sources. It translates a multi-bulk reply into a plain array: every bulk
  string decoded, a nil reply kept as \<^verbatim>\<open>null\<close>.
\<close>

definition fromMultiBulk :: "string option list \<Rightarrow> jsval list" where
  "fromMultiBulk res = map (\<lambda>b. case b of None \<Rightarrow> Null | Some v \<Rightarrow> Str v) res"

text \<open>
  How a call ends: \<open>Returned v\<close> is \<^verbatim>\<open>callback(null, v)\<close>, \<open>Failed e\<close> is
  \<^verbatim>\<open>callback(e)\<close>, \<open>Thrown e\<close> is an exception raised outside every \<^verbatim>\<open>try\<close> (the
  callback is never invoked), \<open>NoCallback\<close> is a return that never invokes the callback,
  and \<open>Unmodelled\<close> marks index data that is JSON of a shape the model does not read
  (no history of the backend's own calls brings such data about).
\<close>

datatype 'a outcome = Returned 'a | Failed error | Thrown error | NoCallback | Unmodelled

datatype property_value = SupportedAddressData

record addressBook =
  ab_id :: jsval
  ab_uri :: jsval
  ab_principaluri :: jsval
  ab_displayname :: jsval
  ab_getctag :: jsval
  ab_addressbook_description :: jsval
  ab_supported_address_data :: property_value

record card =
  card_uri :: jsval
  carddata :: jsval
  lastmodified :: jsval

datatype card_or_false = Card card | JSFalse

subsection \<open>getAddressBooksForUser\<close>

definition getAddressBooksForUser :: "string \<Rightarrow> store \<Rightarrow> addressBook list outcome" where
  "getAddressBooksForUser principalUri s =
     (case parse_reply (hget s principalIndexKey principalUri) of
        Raised ex \<Rightarrow> Failed ex
      | OtherJSON \<Rightarrow> Unmodelled
      | IdArray ids \<Rightarrow>
          let commands =
                map (\<lambda>i. (addressBookKey i, [''uri'', ''principaluri'', ''description'', ''ctag''])) ids;
              res = multi_hmget commands s
          in Returned
               (map (\<lambda>(idx, data).
                       \<lparr>ab_id = js_at (map (\<lambda>i. Number (int i)) ids) idx,
                        ab_uri = js_at data 0,
                        ab_principaluri = js_at data 1,
                        ab_displayname = js_at data 2,
                        ab_getctag = js_at data 4,
                        ab_addressbook_description = js_at data 3,
                        ab_supported_address_data = SupportedAddressData\<rparr>)
                  (enumerate 0 (map fromMultiBulk res))))"

subsection \<open>updateAddressBook\<close>

text \<open>
  The loop over the mutations: \<open>None\<close> is the \<^verbatim>\<open>default\<close> branch, which returns from
  the whole call. A property list is the object's own properties in enumeration order.
\<close>

fun updateAddressBook_loop ::
  "(string \<times> jsval) list \<Rightarrow> (string \<times> jsval) list \<Rightarrow> (string \<times> jsval) list option" where
  "updateAddressBook_loop [] updates = Some updates"
| "updateAddressBook_loop ((property, newValue) # rest) updates =
     (if property = displayname_property
      then updateAddressBook_loop rest (AList.update ''displayname'' newValue updates)
      else if property = description_property
      then updateAddressBook_loop rest (AList.update ''description'' newValue updates)
      else None)"

text \<open>
  The function the source hands to \<^verbatim>\<open>hget\<close>: it runs when the reply \<open>res\<close> has come,
  on the store as it is then. Between the read and this write other calls may have
  written; \<^verbatim>\<open>updateAddressBook\<close> below is the call with nothing in between.
\<close>

definition updateAddressBook_callback ::
  "nat \<Rightarrow> (string \<times> jsval) list \<Rightarrow> string option \<Rightarrow> store \<Rightarrow> bool outcome \<times> store" where
  "updateAddressBook_callback addressBookId updates res s =
     (case res of
        None \<Rightarrow> (Thrown TypeError, s)
      | Some r \<Rightarrow>
          let ctag = js_incr (parseInt r);
              command =
                HMSET (addressBookKey addressBookId)
                  ((''ctag'', String_num ctag) # map (\<lambda>(p, v). (p, String_val v)) updates)
          in (Returned True, exec_command command s))"

definition updateAddressBook ::
  "nat \<Rightarrow> (string \<times> jsval) list \<Rightarrow> store \<Rightarrow> bool outcome \<times> store" where
  "updateAddressBook addressBookId mutations s =
     (case updateAddressBook_loop mutations [] of
        None \<Rightarrow> (Returned False, s)
      | Some updates \<Rightarrow>
          if updates = [] then (Returned False, s)
          else updateAddressBook_callback addressBookId updates
                 (hget s (addressBookKey addressBookId) ''ctag'') s)"

subsection \<open>createAddressBook\<close>

text \<open>The loop over the properties: \<open>Inl property\<close> is the \<^verbatim>\<open>default\<close> branch.\<close>

fun createAddressBook_loop ::
  "(string \<times> jsval) list \<Rightarrow> (string \<times> jsval) list \<Rightarrow> string + (string \<times> jsval) list" where
  "createAddressBook_loop [] vals = Inr vals"
| "createAddressBook_loop ((property, newValue) # rest) vals =
     (if property = displayname_property
      then createAddressBook_loop rest (AList.update ''displayname'' newValue vals)
      else if property = description_property
      then createAddressBook_loop rest (AList.update ''description'' newValue vals)
      else Inl property)"

text \<open>
  The function handed to \<^verbatim>\<open>incr\<close>: it gets the new id and submits the batch, with the
  id set \<open>ids\<close> read before.
\<close>

definition createAddressBook_incr_callback ::
  "string \<Rightarrow> (string \<times> jsval) list \<Rightarrow> nat list \<Rightarrow> nat \<Rightarrow> store \<Rightarrow> unit outcome \<times> store" where
  "createAddressBook_incr_callback principalUri vals ids new_id s =
     (let ids = ids @ [new_id];
          commands =
            [HSET principalIndexKey principalUri (JSON_stringify ids),
             HMSET (addressBookKey new_id)
               ((''ctag'', String_num (Num 1)) # map (\<lambda>(p, v). (p, String_val v)) vals)]
      in (Returned (), multi_exec commands s))"

text \<open>
  The \<^verbatim>\<open>try\<close>/\<^verbatim>\<open>catch\<close> of the function handed to \<^verbatim>\<open>hget\<close>: the id set the reply stands for,
  empty when it does not parse; \<open>None\<close> for JSON this model does not cover.
\<close>

definition createAddressBook_hget_callback :: "string option \<Rightarrow> nat list option" where
  "createAddressBook_hget_callback res =
     (case parse_reply res of
        OtherJSON \<Rightarrow> None
      | IdArray ids \<Rightarrow> Some ids
      | Raised ex \<Rightarrow> Some [])"

definition createAddressBook ::
  "string \<Rightarrow> string \<Rightarrow> (string \<times> jsval) list \<Rightarrow> store \<Rightarrow> unit outcome \<times> store" where
  "createAddressBook principalUri url properties s =
     (case createAddressBook_loop properties
             [(''displayname'', Null), (''description'', Null),
              (''principaluri'', Str principalUri), (''uri'', Str url)] of
        Inl property \<Rightarrow> (Failed (BadRequest (''Unknown property: '' @ property)), s)
      | Inr vals \<Rightarrow>
          (case createAddressBook_hget_callback (hget s principalIndexKey principalUri) of
             None \<Rightarrow> (Unmodelled, s)
           | Some ids \<Rightarrow>
               let (new_id, s1) = incr idKey s
               in createAddressBook_incr_callback principalUri vals ids new_id s1))"

subsection \<open>deleteAddressBook\<close>

text \<open>
  Three reads, each from the callback of the one before: the field \<^verbatim>\<open>pricipaluri\<close> of the
  address book (the stored field is \<^verbatim>\<open>principaluri\<close>), the principal's entry of the index,
  the members of the sorted set of cards. The second callback appends the \<^verbatim>\<open>HSET\<close> of the
  id set without the id (\<open>None\<close> for JSON this model does not cover), the third the
  \<^verbatim>\<open>DEL\<close> of every card, and submits the batch.
\<close>

definition deleteAddressBook_index_callback ::
  "nat \<Rightarrow> string \<Rightarrow> command list \<Rightarrow> string option \<Rightarrow> command list option" where
  "deleteAddressBook_index_callback addressBookId principalUri commands res =
     (case parse_reply res of
        OtherJSON \<Rightarrow> None
      | parsed_ids \<Rightarrow>
          let ids = (case parsed_ids of IdArray is \<Rightarrow> is | _ \<Rightarrow> []);
              ids = remove1 addressBookId ids
          in Some (commands @ [HSET principalIndexKey principalUri (JSON_stringify ids)]))"

definition deleteAddressBook_zrange_callback ::
  "nat \<Rightarrow> command list \<Rightarrow> string option list \<Rightarrow> store \<Rightarrow> unit outcome \<times> store" where
  "deleteAddressBook_zrange_callback addressBookId commands res s =
     (let commands =
            commands @
            map (\<lambda>cardUri. DEL (cardKey addressBookId (String_val cardUri))) (fromMultiBulk res)
      in (Returned (), multi_exec commands s))"

definition deleteAddressBook_commands :: "nat \<Rightarrow> command list" where
  "deleteAddressBook_commands addressBookId =
     [DEL (addressBookKey addressBookId), DEL (bookCardsKey addressBookId)]"

definition deleteAddressBook :: "nat \<Rightarrow> store \<Rightarrow> unit outcome \<times> store" where
  "deleteAddressBook addressBookId s =
     (let commands = deleteAddressBook_commands addressBookId in
      case hget s (addressBookKey addressBookId) ''pricipaluri'' of
        None \<Rightarrow> (Thrown TypeError, s)
      | Some principalUri \<Rightarrow>
          (case deleteAddressBook_index_callback addressBookId principalUri commands
                  (hget s principalIndexKey principalUri) of
             None \<Rightarrow> (Unmodelled, s)
           | Some commands \<Rightarrow>
               deleteAddressBook_zrange_callback addressBookId commands
                 (zrange_all s (bookCardsKey addressBookId)) s))"

subsection \<open>getCards and getCard\<close>

definition getCards :: "nat \<Rightarrow> store \<Rightarrow> card list outcome" where
  "getCards addressbookId s =
     (let cardUris = fromMultiBulk (zrange_all s (bookCardsKey addressbookId));
          commands =
            map (\<lambda>cardUri. (cardKey addressbookId (String_val cardUri),
                            [''carddata'', ''lastmodified''])) cardUris;
          res = multi_hmget commands s
      in Returned
           (map (\<lambda>(idx, data).
                   \<lparr>card_uri = js_at cardUris idx,
                    carddata = js_at data 0,
                    lastmodified = js_at data 1\<rparr>)
              (enumerate 0 (map fromMultiBulk res))))"

text \<open>
  The callback of the \<^verbatim>\<open>HMGET\<close> in \<^verbatim>\<open>getCard\<close>, on the converted reply; \<open>None\<close> is a
  reply that is \<^verbatim>\<open>null\<close>. The first test returns the callback itself without calling it.
\<close>

fun getCard_reply :: "string \<Rightarrow> jsval list option \<Rightarrow> card_or_false outcome" where
  "getCard_reply cardUri None = NoCallback"
| "getCard_reply cardUri (Some res) =
     (if res = [] then NoCallback
      else Returned
             (if res \<noteq> []
              then Card \<lparr>card_uri = Str cardUri,
                         carddata = js_at res 0,
                         lastmodified = js_at res 1\<rparr>
              else JSFalse))"

definition getCard :: "nat \<Rightarrow> string \<Rightarrow> store \<Rightarrow> card_or_false outcome" where
  "getCard addressBookId cardUri s =
     getCard_reply cardUri
       (Some (fromMultiBulk (hmget s (cardKey addressBookId cardUri) [''carddata'', ''lastmodified''])))"

subsection \<open>createCard, updateCard and deleteCard\<close>

text \<open>
  \<^verbatim>\<open>Util.md5\<close> lives in \<^verbatim>\<open>lib/shared/util.js\<close>, which is not among the sources: the
  content hash is the parameter \<open>md5\<close>. \<open>now\<close> is the value of \<^verbatim>\<open>Date.now()\<close>, a whole
  number of milliseconds below \<open>2\<^sup>5\<^sup>3\<close>, whose string is its decimal numeral.
\<close>

definition dquote :: char where
  "dquote = CHR 0x22"

text \<open>
  Each of the three calls prepares its commands, reads the ctag with \<^verbatim>\<open>hget\<close>, and from
  the callback of that read appends the \<^verbatim>\<open>HSET\<close> of the incremented ctag and submits the
  batch. The callback runs on the store as it is when the reply has come.
\<close>

definition createCard_commands :: "nat \<Rightarrow> nat \<Rightarrow> string \<Rightarrow> string \<Rightarrow> command list" where
  "createCard_commands now addressBookId cardUri cardData =
     [HMSET (cardKey addressBookId cardUri)
        [(''carddata'', cardData), (''lastmodified'', string_of_nat now)],
      ZADD (addressBooksTableName @ ''/'' @ cardsTableName) now cardUri]"

definition createCard_callback ::
  "(string \<Rightarrow> string) \<Rightarrow> nat \<Rightarrow> string \<Rightarrow> command list \<Rightarrow> string option \<Rightarrow> store \<Rightarrow>
     string outcome \<times> store" where
  "createCard_callback md5 addressBookId cardData commands res s =
     (case res of
        None \<Rightarrow> (Thrown TypeError, s)
      | Some r \<Rightarrow>
          let ctag = js_incr (parseInt r);
              commands = commands @ [HSET (addressBookKey addressBookId) ''ctag'' (String_num ctag)]
          in (Returned (dquote # md5 cardData @ [dquote]), multi_exec commands s))"

definition createCard ::
  "(string \<Rightarrow> string) \<Rightarrow> nat \<Rightarrow> nat \<Rightarrow> string \<Rightarrow> string \<Rightarrow> store \<Rightarrow> string outcome \<times> store" where
  "createCard md5 now addressBookId cardUri cardData s =
     createCard_callback md5 addressBookId cardData
       (createCard_commands now addressBookId cardUri cardData)
       (hget s (addressBookKey addressBookId) ''ctag'') s"

definition updateCard_commands :: "nat \<Rightarrow> nat \<Rightarrow> string \<Rightarrow> string \<Rightarrow> command list" where
  "updateCard_commands now addressBookId cardUri cardData =
     [HMSET (cardKey addressBookId cardUri)
        [(''carddata'', cardData), (''lastmodified'', string_of_nat now)]]"

definition updateCard_callback ::
  "(string \<Rightarrow> string) \<Rightarrow> nat \<Rightarrow> string \<Rightarrow> command list \<Rightarrow> string option \<Rightarrow> store \<Rightarrow>
     string outcome \<times> store" where
  "updateCard_callback md5 addressBookId cardData commands res s =
     (case res of
        None \<Rightarrow> (Thrown TypeError, s)
      | Some r \<Rightarrow>
          let ctag = js_incr (parseInt r);
              commands = commands @ [HSET (addressBookKey addressBookId) ''ctag'' (String_num ctag)]
          in (Returned (dquote # md5 cardData @ [dquote]), multi_exec commands s))"

definition updateCard ::
  "(string \<Rightarrow> string) \<Rightarrow> nat \<Rightarrow> nat \<Rightarrow> string \<Rightarrow> string \<Rightarrow> store \<Rightarrow> string outcome \<times> store" where
  "updateCard md5 now addressBookId cardUri cardData s =
     updateCard_callback md5 addressBookId cardData
       (updateCard_commands now addressBookId cardUri cardData)
       (hget s (addressBookKey addressBookId) ''ctag'') s"

definition deleteCard_commands :: "nat \<Rightarrow> string \<Rightarrow> command list" where
  "deleteCard_commands addressBookId cardUri =
     [DEL (cardKey addressBookId cardUri),
      ZREM (addressBooksTableName @ ''/'' @ cardsTableName) cardUri]"

definition deleteCard_callback ::
  "nat \<Rightarrow> command list \<Rightarrow> string option \<Rightarrow> store \<Rightarrow> bool outcome \<times> store" where
  "deleteCard_callback addressBookId commands res s =
     (case res of
        None \<Rightarrow> (Thrown TypeError, s)
      | Some r \<Rightarrow>
          let ctag = js_incr (parseInt r);
              commands = commands @ [HSET (addressBookKey addressBookId) ''ctag'' (String_num ctag)]
          in (Returned True, multi_exec commands s))"

definition deleteCard :: "nat \<Rightarrow> string \<Rightarrow> store \<Rightarrow> bool outcome \<times> store" where
  "deleteCard addressBookId cardUri s =
     deleteCard_callback addressBookId (deleteCard_commands addressBookId cardUri)
       (hget s (addressBookKey addressBookId) ''ctag'') s"

section \<open>Histories of the store\<close>

subsection \<open>Calls one after the other\<close>

text \<open>
  The calls of the backend, and the store each leaves behind when no other command
  reaches Redis between its first read and its batch. A call that ends in \<open>Thrown\<close>,
  \<open>Failed\<close> or \<open>Unmodelled\<close> before its batch is submitted leaves the store as it
  found it.
\<close>

datatype operation =
    GetAddressBooksForUser string
  | UpdateAddressBook nat "(string \<times> jsval) list"
  | CreateAddressBook string string "(string \<times> jsval) list"
  | DeleteAddressBook nat
  | GetCards nat
  | GetCard nat string
  | CreateCard nat nat string string
  | UpdateCard nat nat string string
  | DeleteCard nat string

fun store_after :: "(string \<Rightarrow> string) \<Rightarrow> operation \<Rightarrow> store \<Rightarrow> store" where
  "store_after md5 (GetAddressBooksForUser principalUri) s = s"
| "store_after md5 (UpdateAddressBook addressBookId mutations) s =
     snd (updateAddressBook addressBookId mutations s)"
| "store_after md5 (CreateAddressBook principalUri url properties) s =
     snd (createAddressBook principalUri url properties s)"
| "store_after md5 (DeleteAddressBook addressBookId) s = snd (deleteAddressBook addressBookId s)"
| "store_after md5 (GetCards addressBookId) s = s"
| "store_after md5 (GetCard addressBookId cardUri) s = s"
| "store_after md5 (CreateCard now addressBookId cardUri cardData) s =
     snd (createCard md5 now addressBookId cardUri cardData s)"
| "store_after md5 (UpdateCard now addressBookId cardUri cardData) s =
     snd (updateCard md5 now addressBookId cardUri cardData s)"
| "store_after md5 (DeleteCard addressBookId cardUri) s = snd (deleteCard addressBookId cardUri s)"

text \<open>
  The stores that calls bring about from an empty Redis when each call ends before the
  next begins.
\<close>

inductive sequential :: "store \<Rightarrow> bool" where
  sequential_empty: "sequential empty_store"
| sequential_step: "sequential s \<Longrightarrow> sequential (store_after md5 operation s)"

subsection \<open>Calls in flight together\<close>

text \<open>
  Nothing in the source makes a call wait for another: every Redis command is sent
  with a callback, and between the reply to a call's read and the command its callback
  sends, commands of other calls can reach Redis. A reply that has come and whose
  callback has not run yet is kept with the variables the callback closes over.
\<close>

datatype pending =
    UpdateAddressBook_hget nat "(string \<times> jsval) list" "string option"
  | CreateAddressBook_hget string "(string \<times> jsval) list" "string option"
  | CreateAddressBook_incr string "(string \<times> jsval) list" "nat list" nat
  | DeleteAddressBook_hget nat "command list" "string option"
  | DeleteAddressBook_index nat string "command list" "string option"
  | DeleteAddressBook_zrange nat "command list" "string option list"
  | CreateCard_hget nat string "command list" "string option"
  | UpdateCard_hget nat string "command list" "string option"
  | DeleteCard_hget nat "command list" "string option"

text \<open>
  \<open>running s ps\<close>: from an empty Redis, calls have brought about the store \<open>s\<close>, with the
  replies \<open>ps\<close> waiting for their callbacks. A step is one command reaching Redis: the
  first read of a new call, or the command that the callback of a waiting reply sends
  (taken to arrive as the callback runs: a later arrival is a later run of the
  callback). The three calls that only read leave the store as it is and have no rule.
\<close>

inductive running :: "store \<Rightarrow> pending list \<Rightarrow> bool" where
  running_empty: "running empty_store []"
| call_updateAddressBook:
    "running s ps \<Longrightarrow> updateAddressBook_loop mutations [] = Some updates \<Longrightarrow> updates \<noteq> [] \<Longrightarrow>
     running s
       (UpdateAddressBook_hget addressBookId updates
          (hget s (addressBookKey addressBookId) ''ctag'') # ps)"
| reply_updateAddressBook:
    "running s (ps @ UpdateAddressBook_hget addressBookId updates res # ps') \<Longrightarrow>
     running (snd (updateAddressBook_callback addressBookId updates res s)) (ps @ ps')"
| call_createAddressBook:
    "running s ps \<Longrightarrow>
     createAddressBook_loop properties
       [(''displayname'', Null), (''description'', Null),
        (''principaluri'', Str principalUri), (''uri'', Str url)] = Inr vals \<Longrightarrow>
     running s
       (CreateAddressBook_hget principalUri vals (hget s principalIndexKey principalUri) # ps)"
| reply_createAddressBook_hget:
    "running s (ps @ CreateAddressBook_hget principalUri vals res # ps') \<Longrightarrow>
     createAddressBook_hget_callback res = Some ids \<Longrightarrow>
     running (snd (incr idKey s))
       (ps @ CreateAddressBook_incr principalUri vals ids (fst (incr idKey s)) # ps')"
| reply_createAddressBook_incr:
    "running s (ps @ CreateAddressBook_incr principalUri vals ids new_id # ps') \<Longrightarrow>
     running (snd (createAddressBook_incr_callback principalUri vals ids new_id s)) (ps @ ps')"
| call_deleteAddressBook:
    "running s ps \<Longrightarrow>
     running s
       (DeleteAddressBook_hget addressBookId (deleteAddressBook_commands addressBookId)
          (hget s (addressBookKey addressBookId) ''pricipaluri'') # ps)"
| reply_deleteAddressBook_hget:
    "running s (ps @ DeleteAddressBook_hget addressBookId commands (Some principalUri) # ps') \<Longrightarrow>
     running s
       (ps @ DeleteAddressBook_index addressBookId principalUri commands
               (hget s principalIndexKey principalUri) # ps')"
| reply_deleteAddressBook_index:
    "running s (ps @ DeleteAddressBook_index addressBookId principalUri commands res # ps') \<Longrightarrow>
     deleteAddressBook_index_callback addressBookId principalUri commands res = Some commands' \<Longrightarrow>
     running s
       (ps @ DeleteAddressBook_zrange addressBookId commands'
               (zrange_all s (bookCardsKey addressBookId)) # ps')"
| reply_deleteAddressBook_zrange:
    "running s (ps @ DeleteAddressBook_zrange addressBookId commands res # ps') \<Longrightarrow>
     running (snd (deleteAddressBook_zrange_callback addressBookId commands res s)) (ps @ ps')"
| call_createCard:
    "running s ps \<Longrightarrow>
     running s
       (CreateCard_hget addressBookId cardData
          (createCard_commands now addressBookId cardUri cardData)
          (hget s (addressBookKey addressBookId) ''ctag'') # ps)"
| reply_createCard:
    "running s (ps @ CreateCard_hget addressBookId cardData commands res # ps') \<Longrightarrow>
     running (snd (createCard_callback md5 addressBookId cardData commands res s)) (ps @ ps')"
| call_updateCard:
    "running s ps \<Longrightarrow>
     running s
       (UpdateCard_hget addressBookId cardData
          (updateCard_commands now addressBookId cardUri cardData)
          (hget s (addressBookKey addressBookId) ''ctag'') # ps)"
| reply_updateCard:
    "running s (ps @ UpdateCard_hget addressBookId cardData commands res # ps') \<Longrightarrow>
     running (snd (updateCard_callback md5 addressBookId cardData commands res s)) (ps @ ps')"
| call_deleteCard:
    "running s ps \<Longrightarrow>
     running s
       (DeleteCard_hget addressBookId (deleteCard_commands addressBookId cardUri)
          (hget s (addressBookKey addressBookId) ''ctag'') # ps)"
| reply_deleteCard:
    "running s (ps @ DeleteCard_hget addressBookId commands res # ps') \<Longrightarrow>
     running (snd (deleteCard_callback addressBookId commands res s)) (ps @ ps')"

text \<open>The stores the backend can bring about, starting from an empty Redis.\<close>

definition reachable :: "store \<Rightarrow> bool" where
  "reachable s = (\<exists>ps. running s ps)"

text \<open>
  What holds of every waiting reply: the variables of its callback come from the loops
  over the property names and the command lists the calls start with, an id set read
  from the index is one the model covers, and no \<^verbatim>\<open>deleteAddressBook\<close> gets past its
  first read.
\<close>

fun pending_inv :: "pending \<Rightarrow> bool" where
  "pending_inv (UpdateAddressBook_hget a updates res) =
     (\<exists>mutations. updateAddressBook_loop mutations [] = Some updates)"
| "pending_inv (CreateAddressBook_hget principalUri vals res) =
     ((\<exists>properties url.
         createAddressBook_loop properties
           [(''displayname'', Null), (''description'', Null),
            (''principaluri'', Str principalUri), (''uri'', Str url)] = Inr vals) \<and>
      createAddressBook_hget_callback res \<noteq> None)"
| "pending_inv (CreateAddressBook_incr principalUri vals ids new_id) =
     (\<exists>properties url.
        createAddressBook_loop properties
          [(''displayname'', Null), (''description'', Null),
           (''principaluri'', Str principalUri), (''uri'', Str url)] = Inr vals)"
| "pending_inv (DeleteAddressBook_hget a commands res) = (res = None)"
| "pending_inv (DeleteAddressBook_index a principalUri commands res) = False"
| "pending_inv (DeleteAddressBook_zrange a commands res) = False"
| "pending_inv (CreateCard_hget a d commands res) =
     (\<exists>now u. commands = createCard_commands now a u d)"
| "pending_inv (UpdateCard_hget a d commands res) =
     (\<exists>now u. commands = updateCard_commands now a u d)"
| "pending_inv (DeleteCard_hget a commands res) =
     (\<exists>u. commands = deleteCard_commands a u)"

text \<open>The ctag an address book has in the store, as \<^verbatim>\<open>parseInt\<close> reads it.\<close>

definition stored_ctag :: "store \<Rightarrow> nat \<Rightarrow> jsnum option" where
  "stored_ctag s addressBookId =
     map_option parseInt (hget s (addressBookKey addressBookId) ''ctag'')"

text \<open>The ctag text a mutation writes back for the stored text \<open>c\<close>.\<close>

definition bump :: "string \<Rightarrow> string" where
  "bump c = String_num (js_incr (parseInt c))"

text \<open>The last id \<^verbatim>\<open>INCR\<close> handed out (0 before the first).\<close>

definition allocated :: "store \<Rightarrow> nat" where
  "allocated s = (case counters s idKey of None \<Rightarrow> 0 | Some c \<Rightarrow> c)"

text \<open>
  What every store satisfies that calls one after the other bring about: a stored ctag
  is the numeral of a positive number up to \<open>2\<^sup>5\<^sup>3\<close>, and belongs to an address book whose
  id has been handed out.
\<close>

definition ctag_inv :: "store \<Rightarrow> bool" where
  "ctag_inv s =
     (\<forall>a c. hget s (addressBookKey a) ''ctag'' = Some c \<longrightarrow>
        (\<exists>n. c = string_of_nat n \<and> 0 < n \<and> n \<le> 2 ^ 53) \<and> a \<le> allocated s)"

text \<open>
  What every store satisfies that calls bring about, in flight together or not: no
  address book hash has a field
  \<^verbatim>\<open>pricipaluri\<close>, the sorted set \<^verbatim>\<open>addressbooks/<id>/cards\<close> of every address book is
  empty, and every id set in the principal index is one \<^verbatim>\<open>JSON.stringify\<close> wrote.
\<close>

definition index_inv :: "store \<Rightarrow> bool" where
  "index_inv s =
     ((\<forall>a. hget s (addressBookKey a) ''pricipaluri'' = None) \<and>
      (\<forall>a. zsets s (bookCardsKey a) = []) \<and>
      (\<forall>P v. hget s principalIndexKey P = Some v \<longrightarrow> (\<exists>ids. v = JSON_stringify ids)))"

text \<open>The two property names the backend recognises, and the hash field each is kept in.\<close>

definition recognized :: "string \<Rightarrow> bool" where
  "recognized property = (property = displayname_property \<or> property = description_property)"

definition field_of :: "string \<Rightarrow> string" where
  "field_of property = (if property = displayname_property then ''displayname'' else ''description'')"

text \<open>The quoted content hash \<^verbatim>\<open>"\"" + Util.md5(cardData) + "\""\<close>.\<close>

definition quoted_hash :: "(string \<Rightarrow> string) \<Rightarrow> string \<Rightarrow> string" where
  "quoted_hash md5 cardData = dquote # md5 cardData @ [dquote]"

section \<open>Example histories\<close>

text \<open>
  Principal alice creates the address book \<^verbatim>\<open>home\<close> in an empty store (it gets id 1),
  then two cards in it. The content hash plays no part in the store; the examples
  take the identity for it.
\<close>

definition alice_home :: store where
  "alice_home = snd (createAddressBook ''principals/alice'' ''home'' [] empty_store)"

definition alice_cards :: store where
  "alice_cards =
     snd (createCard (\<lambda>b. b) 2000 1 ''c2.vcf'' ''BEGIN:VCARD FN:Carol END:VCARD''
       (snd (createCard (\<lambda>b. b) 1000 1 ''c1.vcf'' ''BEGIN:VCARD FN:Bob END:VCARD''
          alice_home)))"


text \<open>
  Two \<^verbatim>\<open>createCard\<close> calls on \<open>alice_home\<close> whose reads of the ctag are both answered
  before either batch is submitted: the store after the batch of the first call, and
  the store after the batch of the second.
\<close>

definition first_batch :: store where
  "first_batch =
     snd (createCard_callback (\<lambda>b. b) 1 ''BEGIN:VCARD FN:Bob END:VCARD''
            (createCard_commands 1000 1 ''c1.vcf'' ''BEGIN:VCARD FN:Bob END:VCARD'')
            (hget alice_home (addressBookKey 1) ''ctag'') alice_home)"

definition second_batch :: store where
  "second_batch =
     snd (createCard_callback (\<lambda>b. b) 1 ''BEGIN:VCARD FN:Carol END:VCARD''
            (createCard_commands 2000 1 ''c2.vcf'' ''BEGIN:VCARD FN:Carol END:VCARD'')
            (hget alice_home (addressBookKey 1) ''ctag'') first_batch)"

text \<open>
  A stand-in for the content hash in the examples, with 32-character values as the
  hexadecimal MD5 digest has: the first 32 characters of the body, padded with zeros.
\<close>

definition prefix_hash :: "string \<Rightarrow> string" where
  "prefix_hash b = take 32 (b @ replicate 32 (CHR ''0''))"

section \<open>Decimal numerals\<close>

lemma digit_char_is_digit: "d < 10 \<Longrightarrow> is_digit (digit_char d)"
  by (simp add: is_digit_def digit_char_def)

lemma digit_val_digit_char: "d < 10 \<Longrightarrow> digit_val (digit_char d) = d"
  by (simp add: digit_val_def digit_char_def)

lemma string_of_nat_digits: "c \<in> set (string_of_nat n) \<Longrightarrow> is_digit c"
proof (induction n arbitrary: c rule: string_of_nat.induct)
  case (1 n)
  show ?case
  proof (cases "n < 10")
    case True
    with "1.prems" show ?thesis
      by (simp add: string_of_nat.simps [of n] digit_char_is_digit)
  next
    case False
    with "1.prems" "1.IH" show ?thesis
      by (auto simp add: string_of_nat.simps [of n] digit_char_is_digit)
  qed
qed

lemma string_of_nat_nonempty: "string_of_nat n \<noteq> []"
  by (subst string_of_nat.simps) simp

lemma digits_value_snoc: "digits_value (ds @ [c]) = 10 * digits_value ds + digit_val c"
  by (simp add: digits_value_def)

lemma digits_value_string_of_nat: "digits_value (string_of_nat n) = n"
proof (induction n rule: string_of_nat.induct)
  case (1 n)
  show ?case
  proof (cases "n < 10")
    case True
    then show ?thesis
      by (simp add: string_of_nat.simps [of n] digits_value_def digit_val_digit_char)
  next
    case False
    with "1.IH" show ?thesis
      by (simp add: string_of_nat.simps [of n] digits_value_snoc digit_val_digit_char)
  qed
qed

lemma string_of_nat_inj [simp]: "string_of_nat a = string_of_nat b \<longleftrightarrow> a = b"
  by (metis digits_value_string_of_nat)

lemma is_digit_not_space: "is_digit c \<Longrightarrow> \<not> is_space c"
  by (auto simp add: is_digit_def is_space_def)

lemma bits_le: "bits m \<le> k \<longleftrightarrow> m < 2 ^ k"
proof (induction m arbitrary: k rule: bits.induct)
  case (1 m)
  show ?case
  proof (cases "m = 0")
    case True
    then show ?thesis by (simp add: bits.simps [of 0])
  next
    case False
    show ?thesis
    proof (cases k)
      case 0
      with False show ?thesis by (simp add: bits.simps [of m])
    next
      case (Suc j)
      have "bits m \<le> Suc j \<longleftrightarrow> bits (m div 2) \<le> j"
        using False by (simp add: bits.simps [of m])
      also have "\<dots> \<longleftrightarrow> m div 2 < 2 ^ j"
        using "1.IH" [OF False] .
      also have "\<dots> \<longleftrightarrow> m < 2 ^ Suc j"
        by auto
      finally show ?thesis using Suc by simp
    qed
  qed
qed

lemma bits_eq: "2 ^ k \<le> m \<Longrightarrow> m < 2 ^ Suc k \<Longrightarrow> bits m = Suc k"
  using bits_le [of m k] bits_le [of m "Suc k"] by auto

text \<open>
  The same text with the small numbers recognised by their length in bits, which
  evaluation runs through faster.
\<close>

lemma number_text_code [code]:
  "number_text m =
     (if bits m \<le> 53 then string_of_nat m
      else if m = 2 ^ 53 then string_of_nat m
      else let (k, n, s) = shortest_digits m 1; ds = string_of_nat s in
        if n \<le> 21 then ds @ replicate (n - k) (CHR ''0'')
        else hd ds # (if k = 1 then [] else CHR ''.'' # tl ds) @ ''e+'' @ string_of_nat (n - 1))"
proof -
  have "bits m \<le> 53 \<or> m = 2 ^ 53 \<longleftrightarrow> m \<le> 2 ^ 53"
    by (auto simp add: bits_le)
  then show ?thesis
    unfolding number_text_def by (auto simp del: One_nat_def)
qed

text \<open>Every integer up to \<open>2^53\<close> is a double.\<close>

lemma round_double_exact: "m \<le> 2 ^ 53 \<Longrightarrow> round_double m = Some m"
proof (cases "m < 2 ^ 53")
  case True
  then have "bits m \<le> 53" by (simp add: bits_le)
  then show ?thesis by (simp add: round_double_def)
next
  case False
  assume "m \<le> 2 ^ 53"
  with False have m: "m = 2 ^ 53" by simp
  have "bits m = Suc 53"
    by (rule bits_eq) (simp_all add: m)
  then show ?thesis
    by (simp add: round_double_def Let_def m)
qed

text \<open>The integer after \<open>2^53\<close> is none: it rounds back to \<open>2^53\<close>.\<close>

lemma round_double_stalls: "round_double (2 ^ 53 + 1) = Some (2 ^ 53)"
proof -
  have "bits (2 ^ 53 + 1) = Suc 53"
    by (rule bits_eq) simp_all
  then show ?thesis
    by (simp add: round_double_def Let_def)
qed

lemma to_number_exact: "n \<le> 2 ^ 53 \<Longrightarrow> to_number (int n) = Num (int n)"
  by (simp add: to_number_def round_double_exact)

text \<open>Reading back a rendered number: \<^verbatim>\<open>parseInt(String(n), 10)\<close> is \<open>n\<close>, up to \<open>2^53\<close>.\<close>

lemma parseInt_numeral: "parseInt (string_of_nat n) = to_number (int n)"
proof -
  obtain c cs where s: "string_of_nat n = c # cs"
    using string_of_nat_nonempty [of n] by (cases "string_of_nat n") auto
  have d: "\<forall>x \<in> set (c # cs). is_digit x"
    using string_of_nat_digits [of _ n] s by metis
  then have c: "is_digit c" by simp
  then have "\<not> is_space c" by (rule is_digit_not_space)
  moreover have "c \<noteq> CHR ''-''" "c \<noteq> CHR ''+''"
    using c by (auto simp add: is_digit_def)
  moreover have "takeWhile is_digit (c # cs) = c # cs"
    using d by (simp add: takeWhile_eq_all_conv)
  ultimately have "parseInt (c # cs) = to_number (int (digits_value (c # cs)))"
    by (simp add: parseInt_def Let_def)
  then show ?thesis
    using s digits_value_string_of_nat [of n] by simp
qed

lemma parseInt_string_of_nat: "n \<le> 2 ^ 53 \<Longrightarrow> parseInt (string_of_nat n) = Num (int n)"
  by (simp add: parseInt_numeral to_number_exact)

lemma String_num_exact: "n \<le> 2 ^ 53 \<Longrightarrow> String_num (Num (int n)) = string_of_nat n"
  by (simp add: number_text_def)

lemma String_num_one [simp]: "String_num (Num 1) = string_of_nat 1"
  using String_num_exact [of 1] by simp

lemma js_incr_exact: "n < 2 ^ 53 \<Longrightarrow> js_incr (Num (int n)) = Num (int (Suc n))"
  using to_number_exact [of "Suc n"] by (simp add: add.commute)

lemma js_incr_stalls: "js_incr (Num (2 ^ 53)) = Num (2 ^ 53)"
proof -
  have "round_double 9007199254740993 = Some 9007199254740992"
    using round_double_stalls by simp
  then show ?thesis
    by (simp add: to_number_def)
qed

text \<open>
  The ctag a mutation writes back when the stored one is the numeral of \<open>n\<close>: the
  numeral of \<open>n + 1\<close> below \<open>2^53\<close>, and \<open>2^53\<close> again at \<open>2^53\<close>.
\<close>

lemma bump_numeral:
  assumes "n < 2 ^ 53"
  shows "String_num (js_incr (parseInt (string_of_nat n))) = string_of_nat (Suc n)"
proof -
  have 1: "parseInt (string_of_nat n) = Num (int n)"
    using assms by (intro parseInt_string_of_nat) simp
  have 2: "js_incr (Num (int n)) = Num (int (Suc n))"
    using assms by (rule js_incr_exact)
  have 3: "String_num (Num (int (Suc n))) = string_of_nat (Suc n)"
    using assms by (intro String_num_exact) simp
  show ?thesis by (simp only: 1 2 3)
qed

lemma bump_limit:
  "String_num (js_incr (parseInt (string_of_nat (2 ^ 53)))) = string_of_nat (2 ^ 53)"
proof -
  have "parseInt (string_of_nat (2 ^ 53)) = Num (int (2 ^ 53))"
    by (rule parseInt_string_of_nat) simp
  then have "js_incr (parseInt (string_of_nat (2 ^ 53))) = Num (int (2 ^ 53))"
    using js_incr_stalls by simp
  then show ?thesis
    by (simp only: String_num_exact [OF order_refl])
qed

section \<open>The serialised id set read back\<close>

lemma comma_not_digit: "CHR '','' \<notin> set (string_of_nat n)"
  using string_of_nat_digits [of "CHR '',''" n] by (auto simp add: is_digit_def)

lemma split_commas_no_comma:
  "CHR '','' \<notin> set x \<Longrightarrow> split_commas acc x = [rev acc @ x]"
  by (induction x arbitrary: acc) auto

lemma split_commas_piece:
  "CHR '','' \<notin> set x \<Longrightarrow>
   split_commas acc (x @ CHR '','' # r) = (rev acc @ x) # split_commas [] r"
  by (induction x arbitrary: acc) auto

lemma split_join_commas:
  "ws \<noteq> [] \<Longrightarrow> \<forall>w \<in> set ws. CHR '','' \<notin> set w \<Longrightarrow> split_commas [] (join_commas ws) = ws"
proof (induction ws rule: join_commas.induct)
  case 1
  then show ?case by simp
next
  case (2 x)
  then show ?case by (simp add: split_commas_no_comma)
next
  case (3 x y ys)
  then show ?case by (simp add: split_commas_piece)
qed

lemma string_of_nat_leading_zero:
  "string_of_nat n = CHR ''0'' # r \<Longrightarrow> r = []"
proof (induction n arbitrary: r rule: string_of_nat.induct)
  case (1 n)
  show ?case
  proof (cases "n < 10")
    case True
    with "1.prems" show ?thesis by (simp add: string_of_nat.simps [of n])
  next
    case False
    obtain c cs where m: "string_of_nat (n div 10) = c # cs"
      using string_of_nat_nonempty [of "n div 10"] by (cases "string_of_nat (n div 10)") auto
    with False "1.prems" have "c = CHR ''0''"
      by (simp add: string_of_nat.simps [of n])
    with m "1.IH" [OF False, of cs] have "string_of_nat (n div 10) = ''0''" by simp
    then have "digits_value (string_of_nat (n div 10)) = digits_value ''0''" by simp
    moreover have "digits_value ''0'' = 0"
      by (simp add: digits_value_def digit_val_def)
    ultimately have "n div 10 = 0"
      by (simp only: digits_value_string_of_nat)
    with False show ?thesis by simp
  qed
qed

lemma is_number_literal_string_of_nat: "is_number_literal (string_of_nat n)"
proof -
  obtain c cs where s: "string_of_nat n = c # cs"
    using string_of_nat_nonempty [of n] by (cases "string_of_nat n") auto
  have "list_all is_digit (string_of_nat n)"
    using string_of_nat_digits [of _ n] by (simp add: list_all_iff)
  moreover have "c = CHR ''0'' \<Longrightarrow> cs = []"
    using s string_of_nat_leading_zero [of n cs] by simp
  ultimately show ?thesis
    using s by (auto simp add: is_number_literal_def)
qed

lemma join_commas_nonempty: "ids \<noteq> [] \<Longrightarrow> join_commas (map string_of_nat ids) \<noteq> []"
  by (induction "map string_of_nat ids" arbitrary: ids rule: join_commas.induct)
    (auto simp add: string_of_nat_nonempty)

text \<open>Reading back what was written: \<^verbatim>\<open>JSON.parse(JSON.stringify(ids))\<close> is \<open>ids\<close>.\<close>

lemma JSON_parse_stringify [simp]: "JSON_parse (JSON_stringify ids) = IdArray ids"
proof -
  let ?body = "join_commas (map string_of_nat ids)"
  have b: "butlast (tl (JSON_stringify ids)) = ?body"
    by (simp add: JSON_stringify_def butlast_append)
  have f: "2 \<le> length (JSON_stringify ids) \<and> hd (JSON_stringify ids) = CHR ''['' \<and>
      last (JSON_stringify ids) = CHR '']''"
    by (simp add: JSON_stringify_def)
  have "id_array_text (JSON_stringify ids) = Some ids"
  proof (cases "ids = []")
    case True
    then show ?thesis by (simp add: id_array_text_def JSON_stringify_def)
  next
    case False
    then have ne: "?body \<noteq> []" by (rule join_commas_nonempty)
    have sp: "split_commas [] ?body = map string_of_nat ids"
      using False by (intro split_join_commas) (auto simp add: comma_not_digit)
    have lits: "list_all is_number_literal (map string_of_nat ids)"
      by (simp add: list_all_iff is_number_literal_string_of_nat)
    have vals: "map digits_value (map string_of_nat ids) = ids"
      by (simp add: comp_def digits_value_string_of_nat)
    from f b ne sp lits vals show ?thesis
      by (simp add: id_array_text_def Let_def del: map_map)
  qed
  then show ?thesis by (simp add: JSON_parse_def)
qed

section \<open>Keys\<close>

text \<open>
  A rendered id holds digits only, so the keys of different kinds, and of different
  address books, are different strings.
\<close>

lemma slash_not_digit: "CHR ''/'' \<notin> set (string_of_nat n)"
  using string_of_nat_digits [of "CHR ''/''" n] by (auto simp add: is_digit_def)

lemma string_of_nat_no_slash [simp]: "string_of_nat a \<noteq> string_of_nat b @ CHR ''/'' # r"
  using slash_not_digit [of a] by auto

lemma string_of_nat_no_slash' [simp]: "string_of_nat b @ CHR ''/'' # r \<noteq> string_of_nat a"
  using slash_not_digit [of a] by (metis in_set_conv_decomp)

lemma string_of_nat_not_letters [simp]:
  "string_of_nat a \<noteq> ''pricipalUri''" "string_of_nat a \<noteq> ''ID''" "string_of_nat a \<noteq> ''cards''"
  using string_of_nat_digits [of "CHR ''p''" a] string_of_nat_digits [of "CHR ''I''" a]
    string_of_nat_digits [of "CHR ''c''" a]
  by (auto simp add: is_digit_def)

lemmas letters_not_string_of_nat [simp] = string_of_nat_not_letters [THEN not_sym]

lemma addressBookKey_inj [simp]: "addressBookKey a = addressBookKey b \<longleftrightarrow> a = b"
  by (simp add: addressBookKey_def)

lemma addressBookKey_distinct [simp]:
  "addressBookKey a \<noteq> principalIndexKey" "principalIndexKey \<noteq> addressBookKey a"
  "addressBookKey a \<noteq> idKey" "idKey \<noteq> addressBookKey a"
  "addressBookKey a \<noteq> bookCardsKey b" "bookCardsKey b \<noteq> addressBookKey a"
  "addressBookKey a \<noteq> cardKey b u" "cardKey b u \<noteq> addressBookKey a"
  by (simp_all add: addressBookKey_def principalIndexKey_def idKey_def bookCardsKey_def
      cardKey_def addressBooksTableName_def cardsTableName_def)

lemma principalIndexKey_distinct [simp]:
  "principalIndexKey \<noteq> bookCardsKey b" "bookCardsKey b \<noteq> principalIndexKey"
  "principalIndexKey \<noteq> cardKey b u" "cardKey b u \<noteq> principalIndexKey"
  "principalIndexKey \<noteq> idKey" "idKey \<noteq> principalIndexKey"
  by (simp_all add: principalIndexKey_def idKey_def bookCardsKey_def
      cardKey_def addressBooksTableName_def cardsTableName_def)

lemma idKey_distinct [simp]:
  "idKey \<noteq> bookCardsKey b" "bookCardsKey b \<noteq> idKey"
  "idKey \<noteq> cardKey b u" "cardKey b u \<noteq> idKey"
  by (simp_all add: idKey_def bookCardsKey_def
      cardKey_def addressBooksTableName_def cardsTableName_def)

lemma bookCardsKey_not_shared [simp]:
  "bookCardsKey b \<noteq> addressBooksTableName @ CHR ''/'' # cardsTableName"
  "addressBooksTableName @ CHR ''/'' # cardsTableName \<noteq> bookCardsKey b"
  by (simp_all add: bookCardsKey_def addressBooksTableName_def cardsTableName_def)

text \<open>
  The sorted set \<^verbatim>\<open>createCard\<close> and \<^verbatim>\<open>deleteCard\<close> address is no hash and no counter
  of the backend either.
\<close>

lemma shared_cards_key_distinct:
  "addressBooksTableName @ ''/'' @ cardsTableName \<noteq> principalIndexKey"
  "addressBooksTableName @ ''/'' @ cardsTableName \<noteq> addressBookKey a"
  "addressBooksTableName @ ''/'' @ cardsTableName \<noteq> cardKey a u"
  "addressBooksTableName @ ''/'' @ cardsTableName \<noteq> idKey"
  by (simp_all add: principalIndexKey_def addressBookKey_def cardKey_def idKey_def
      addressBooksTableName_def cardsTableName_def)

lemma bookCardsKey_not_cardKey [simp]:
  "bookCardsKey b \<noteq> cardKey a u" "cardKey a u \<noteq> bookCardsKey b"
  by (simp_all add: bookCardsKey_def cardKey_def addressBooksTableName_def cardsTableName_def)

lemma bookCardsKey_inj [simp]: "bookCardsKey a = bookCardsKey b \<longleftrightarrow> a = b"
  by (simp add: bookCardsKey_def addressBooksTableName_def cardsTableName_def)

section \<open>The loops over property names\<close>

lemma createAddressBook_loop_unknown:
  "\<exists>p \<in> fst ` set properties. \<not> recognized p \<Longrightarrow>
   \<exists>p. p \<in> fst ` set properties \<and> \<not> recognized p \<and>
       createAddressBook_loop properties vals = Inl p"
proof (induction properties arbitrary: vals)
  case Nil
  then show ?case by simp
next
  case (Cons pv rest)
  obtain p v where pv: "pv = (p, v)" by (cases pv)
  show ?case
  proof (cases "recognized p")
    case True
    with Cons.prems pv have "\<exists>q \<in> fst ` set rest. \<not> recognized q" by auto
    from Cons.IH [OF this] True pv show ?thesis
      by (auto simp add: recognized_def)
  next
    case False
    with pv show ?thesis by (auto simp add: recognized_def)
  qed
qed

lemma updateAddressBook_loop_unknown:
  "\<exists>p \<in> fst ` set mutations. \<not> recognized p \<Longrightarrow> updateAddressBook_loop mutations updates = None"
proof (induction mutations arbitrary: updates)
  case Nil
  then show ?case by simp
next
  case (Cons pv rest)
  obtain p v where pv: "pv = (p, v)" by (cases pv)
  show ?case
  proof (cases "recognized p")
    case True
    with Cons.prems pv have "\<exists>q \<in> fst ` set rest. \<not> recognized q" by auto
    from Cons.IH [OF this] True pv show ?thesis
      by (auto simp add: recognized_def)
  next
    case False
    with pv show ?thesis by (auto simp add: recognized_def)
  qed
qed

lemma AList_update_fresh: "k \<notin> fst ` set al \<Longrightarrow> AList.update k v al = al @ [(k, v)]"
  by (induction al) auto

lemma property_names_differ: "displayname_property \<noteq> description_property"
  by (simp add: displayname_property_def description_property_def NS_CARDDAV_def)

lemma field_of_inj: "recognized p \<Longrightarrow> recognized q \<Longrightarrow> field_of p = field_of q \<longleftrightarrow> p = q"
  using property_names_differ by (auto simp add: recognized_def field_of_def)

lemma updateAddressBook_loop_recognized:
  "\<forall>p \<in> fst ` set mutations. recognized p \<Longrightarrow> distinct (map fst mutations) \<Longrightarrow>
   field_of ` fst ` set mutations \<inter> fst ` set updates = {} \<Longrightarrow>
   updateAddressBook_loop mutations updates =
     Some (updates @ map (\<lambda>(p, v). (field_of p, v)) mutations)"
proof (induction mutations arbitrary: updates)
  case Nil
  then show ?case by simp
next
  case (Cons pv rest)
  obtain p v where pv: "pv = (p, v)" by (cases pv)
  from Cons.prems pv have rec: "recognized p" and rest: "\<forall>q \<in> fst ` set rest. recognized q"
    and dist: "distinct (map fst rest)" and pnew: "p \<notin> fst ` set rest"
    and fresh: "field_of p \<notin> fst ` set updates"
    by auto
  have upd: "AList.update (field_of p) v updates = updates @ [(field_of p, v)]"
    using fresh by (rule AList_update_fresh)
  have "field_of ` fst ` set rest \<inter> fst ` set (updates @ [(field_of p, v)]) = {}"
  proof -
    have "field_of p \<notin> field_of ` fst ` set rest"
      using rec rest pnew field_of_inj by blast
    moreover have "field_of ` fst ` set rest \<inter> fst ` set updates = {}"
      using Cons.prems(3) by auto
    ultimately show ?thesis by auto
  qed
  from Cons.IH [OF rest dist this]
  have ih: "updateAddressBook_loop rest (updates @ [(field_of p, v)]) =
      Some (updates @ (field_of p, v) # map (\<lambda>(p, v). (field_of p, v)) rest)"
    by simp
  from rec show ?case
    unfolding recognized_def
  proof
    assume "p = displayname_property"
    with ih upd pv show ?thesis by (simp add: field_of_def)
  next
    assume "p = description_property"
    with ih upd pv property_names_differ show ?thesis by (simp add: field_of_def)
  qed
qed

section \<open>Single calls\<close>

text \<open>Each call with the callbacks it is made of.\<close>

lemmas updateAddressBook_unfold = updateAddressBook_def updateAddressBook_callback_def

lemmas createAddressBook_unfold =
  createAddressBook_def createAddressBook_hget_callback_def createAddressBook_incr_callback_def

lemmas deleteAddressBook_unfold =
  deleteAddressBook_def deleteAddressBook_commands_def deleteAddressBook_index_callback_def
  deleteAddressBook_zrange_callback_def

lemmas createCard_unfold = createCard_def createCard_commands_def createCard_callback_def

lemmas updateCard_unfold = updateCard_def updateCard_commands_def updateCard_callback_def

lemmas deleteCard_unfold = deleteCard_def deleteCard_commands_def deleteCard_callback_def

lemma deleteAddressBook_throws:
  "hget s (addressBookKey a) ''pricipaluri'' = None \<Longrightarrow>
   deleteAddressBook a s = (Thrown TypeError, s)"
  by (simp add: deleteAddressBook_unfold)

lemma getCard_reply_never_false: "getCard_reply u res \<noteq> Returned JSFalse"
  by (cases res) auto

text \<open>
  No call of \<^verbatim>\<open>createCard\<close> touches the sorted set \<^verbatim>\<open>getCards\<close> reads, for any
  address book.
\<close>

lemma createCard_book_index:
  "zsets (snd (createCard md5 now a u d s)) (bookCardsKey b) = zsets s (bookCardsKey b)"
  by (simp add: createCard_unfold multi_exec_def Let_def split: option.splits)

lemma enumerate_js_at:
  "map (\<lambda>(idx, data). js_at xs idx) (enumerate n (map f (drop n xs))) = drop n xs"
proof (induction "length xs - n" arbitrary: n)
  case 0
  then show ?case by simp
next
  case (Suc k)
  then have n: "n < length xs" by simp
  from Suc have "k = length xs - Suc n" by simp
  from Suc.hyps(1) [OF this] n show ?case
    by (simp add: Cons_nth_drop_Suc [symmetric] js_at_def)
qed

lemma getCards_uris:
  "map card_uri (case getCards b s of Returned cs \<Rightarrow> cs | _ \<Rightarrow> []) =
   fromMultiBulk (zrange_all s (bookCardsKey b))"
proof -
  let ?xs = "fromMultiBulk (zrange_all s (bookCardsKey b))"
  have "map card_uri (case getCards b s of Returned cs \<Rightarrow> cs | _ \<Rightarrow> []) =
      map (\<lambda>(idx, data). js_at ?xs idx)
        (enumerate 0 (map (\<lambda>cardUri. fromMultiBulk
           (hmget s (cardKey b (String_val cardUri)) [''carddata'', ''lastmodified''])) (drop 0 ?xs)))"
    by (simp add: getCards_def Let_def multi_hmget_def comp_def case_prod_unfold)
  also have "\<dots> = drop 0 ?xs" by (rule enumerate_js_at)
  finally show ?thesis by simp
qed

text \<open>The uris \<^verbatim>\<open>getCards\<close> lists are the same before and after any \<^verbatim>\<open>createCard\<close>.\<close>

lemma getCards_after_createCard:
  "map card_uri (case getCards b (snd (createCard md5 now a u d s)) of Returned cs \<Rightarrow> cs | _ \<Rightarrow> []) =
   map card_uri (case getCards b s of Returned cs \<Rightarrow> cs | _ \<Rightarrow> [])"
  by (simp add: getCards_uris zrange_all_def createCard_book_index)

section \<open>Listing what was created\<close>

text \<open>
  C3. For a principal with no address book yet, \<^verbatim>\<open>createAddressBook(P, uri, {})\<close>
  followed by \<^verbatim>\<open>getAddressBooksForUser(P)\<close> should list exactly one entry, with that uri
  and a ctag property equal to 1. The code lists one entry with that uri, but its
  \<^verbatim>\<open>HMGET\<close> asks for four fields (\<^verbatim>\<open>uri, principaluri, description, ctag\<close>) and reads
  the ctag from the fifth position: the ctag property is \<^verbatim>\<open>undefined\<close>, the stored ctag
  \<^verbatim>\<open>1\<close> lands in the description property, and the description in the display name.
\<close>

theorem created_book_listed_without_ctag:
  "getAddressBooksForUser ''principals/alice''
     (snd (createAddressBook ''principals/alice'' ''home'' [] empty_store)) =
   Returned
     [\<lparr>ab_id = Number 1, ab_uri = Str ''home'',
       ab_principaluri = Str ''principals/alice'',
       ab_displayname = Str ''null'', ab_getctag = Undefined,
       ab_addressbook_description = Str ''1'',
       ab_supported_address_data = SupportedAddressData\<rparr>] \<and>
   getAddressBooksForUser ''principals/alice'' empty_store = Failed TypeError \<and>
   hget (snd (createAddressBook ''principals/alice'' ''home'' [] empty_store))
     (addressBookKey 1) ''ctag'' = Some ''1''"
  by code_simp

text \<open>
  C2. A successful \<^verbatim>\<open>createCard(A, uri, body)\<close> should add the uri to the membership
  index of A, so that \<^verbatim>\<open>getCards(A)\<close> lists it. The code adds the uri to the sorted set
  \<^verbatim>\<open>addressbooks/cards\<close>, a key without the address book id, while \<^verbatim>\<open>getCards\<close> and
  \<^verbatim>\<open>deleteAddressBook\<close> read \<^verbatim>\<open>addressbooks/<id>/cards\<close>: the new card is not listed.
\<close>

theorem createCard_not_listed:
  "fst (createCard (\<lambda>b. b) 1000 1 ''bob.vcf'' ''BEGIN:VCARD FN:Bob END:VCARD'' alice_home) =
     Returned (quoted_hash (\<lambda>b. b) ''BEGIN:VCARD FN:Bob END:VCARD'') \<and>
   getCards 1
     (snd (createCard (\<lambda>b. b) 1000 1 ''bob.vcf'' ''BEGIN:VCARD FN:Bob END:VCARD'' alice_home)) =
     Returned [] \<and>
   zrange_all
     (snd (createCard (\<lambda>b. b) 1000 1 ''bob.vcf'' ''BEGIN:VCARD FN:Bob END:VCARD'' alice_home))
     ''addressbooks/cards'' = [Some ''bob.vcf'']"
  by code_simp

section \<open>Deleting an address book\<close>

text \<open>
  C4. After \<^verbatim>\<open>deleteAddressBook(A)\<close> for an address book that owned the cards c1 and c2,
  \<^verbatim>\<open>getCard\<close> should report both absent and the id should be gone from the principal's
  list. The code reads the owning principal from the field \<^verbatim>\<open>pricipaluri\<close>, while
  \<^verbatim>\<open>createAddressBook\<close> stores it as \<^verbatim>\<open>principaluri\<close>: the reply is \<^verbatim>\<open>null\<close>,
  \<^verbatim>\<open>res.toString\<close> raises outside every \<^verbatim>\<open>try\<close>, no batch is submitted, and the cards,
  the record and the index entry all stay.
\<close>

theorem deleteAddressBook_never_completes:
  "deleteAddressBook 1 alice_cards = (Thrown TypeError, alice_cards) \<and>
   getCard 1 ''c1.vcf'' alice_cards =
     Returned (Card \<lparr>card_uri = Str ''c1.vcf'', carddata = Str ''BEGIN:VCARD FN:Bob END:VCARD'',
                     lastmodified = Str ''1000''\<rparr>) \<and>
   getCard 1 ''c2.vcf'' alice_cards =
     Returned (Card \<lparr>card_uri = Str ''c2.vcf'', carddata = Str ''BEGIN:VCARD FN:Carol END:VCARD'',
                     lastmodified = Str ''2000''\<rparr>) \<and>
   hget alice_cards principalIndexKey ''principals/alice'' = Some ''[1]'' \<and>
   hget alice_cards (addressBookKey 1) ''principaluri'' = Some ''principals/alice''"
proof -
  have "hget alice_cards (addressBookKey 1) ''pricipaluri'' = None"
    by code_simp
  then have "deleteAddressBook 1 alice_cards = (Thrown TypeError, alice_cards)"
    by (rule deleteAddressBook_throws)
  moreover have "getCard 1 ''c1.vcf'' alice_cards =
     Returned (Card \<lparr>card_uri = Str ''c1.vcf'', carddata = Str ''BEGIN:VCARD FN:Bob END:VCARD'',
                     lastmodified = Str ''1000''\<rparr>)"
    by code_simp
  moreover have "getCard 1 ''c2.vcf'' alice_cards =
     Returned (Card \<lparr>card_uri = Str ''c2.vcf'', carddata = Str ''BEGIN:VCARD FN:Carol END:VCARD'',
                     lastmodified = Str ''2000''\<rparr>)"
    by code_simp
  moreover have "hget alice_cards principalIndexKey ''principals/alice'' = Some ''[1]''"
    by code_simp
  moreover have "hget alice_cards (addressBookKey 1) ''principaluri'' = Some ''principals/alice''"
    by code_simp
  ultimately show ?thesis by simp
qed

section \<open>Reading one card\<close>

text \<open>
  C5. \<^verbatim>\<open>getCard\<close> on a card with no stored fields should complete its callback with an
  explicit absent value. The code never does: \<^verbatim>\<open>HMGET\<close> answers two nil replies for a
  missing key, the converted reply has length two, and the callback receives a record
  whose carddata and lastmodified are \<^verbatim>\<open>null\<close>; on an empty or \<^verbatim>\<open>null\<close> reply the
  statement \<^verbatim>\<open>return callback\<close> leaves without calling the callback at all.
\<close>

theorem getCard_missing_card:
  "getCard 1 ''nobody.vcf'' alice_home =
     Returned (Card \<lparr>card_uri = Str ''nobody.vcf'', carddata = Null, lastmodified = Null\<rparr>) \<and>
   getCard_reply ''nobody.vcf'' (Some []) = NoCallback \<and>
   getCard_reply ''nobody.vcf'' None = NoCallback"
  by code_simp

section \<open>Unrecognised property names\<close>

lemma updateAddressBook_loop_total:
  "\<forall>p \<in> fst ` set mutations. recognized p \<Longrightarrow>
   \<exists>ups. updateAddressBook_loop mutations updates = Some ups"
  by (induction mutations arbitrary: updates) (auto simp add: recognized_def)

lemma updateAddressBook_loop_grows:
  "updateAddressBook_loop mutations updates = Some ups \<Longrightarrow> updates \<noteq> [] \<Longrightarrow> ups \<noteq> []"
proof (induction mutations arbitrary: updates)
  case Nil
  then show ?case by simp
next
  case (Cons pv rest)
  obtain p v where pv: "pv = (p, v)" by (cases pv)
  from Cons.prems(1) pv consider
      (dn) "updateAddressBook_loop rest (AList.update ''displayname'' v updates) = Some ups"
    | (ds) "updateAddressBook_loop rest (AList.update ''description'' v updates) = Some ups"
    by (auto split: if_splits)
  then show ?case
  proof cases
    case dn
    from Cons.IH [OF this AList.update_nonempty] show ?thesis .
  next
    case ds
    from Cons.IH [OF this AList.update_nonempty] show ?thesis .
  qed
qed

lemma updateAddressBook_loop_nonempty:
  assumes "updateAddressBook_loop mutations [] = Some ups" and "mutations \<noteq> []"
  shows "ups \<noteq> []"
proof -
  from assms(2) obtain pv rest where m: "mutations = pv # rest"
    by (cases mutations) auto
  obtain p v where pv: "pv = (p, v)" by (cases pv)
  from assms(1) m pv consider
      (dn) "updateAddressBook_loop rest (AList.update ''displayname'' v []) = Some ups"
    | (ds) "updateAddressBook_loop rest (AList.update ''description'' v []) = Some ups"
    by (auto split: if_splits)
  then show ?thesis
  proof cases
    case dn
    from updateAddressBook_loop_grows [OF this AList.update_nonempty] show ?thesis .
  next
    case ds
    from updateAddressBook_loop_grows [OF this AList.update_nonempty] show ?thesis .
  qed
qed

text \<open>
  C7. \<^verbatim>\<open>updateAddressBook\<close> is all or nothing. A mutation set with any unrecognised
  property name ends in \<^verbatim>\<open>false\<close> and the store is untouched; so does one with no
  recognised name. Otherwise (the names recognised and, as in any object, distinct; the
  address book's ctag stored as the text \<open>c\<close>) the result is \<^verbatim>\<open>true\<close> and a single
  \<^verbatim>\<open>HMSET\<close> writes the incremented ctag, the string of \<^verbatim>\<open>++\<close> on \<^verbatim>\<open>parseInt\<close> of \<open>c\<close>,
  together with the new values; that ctag is \<open>n + 1\<close> when \<open>c\<close> is the numeral of an
  \<open>n\<close> below \<open>2\<^sup>5\<^sup>3\<close>. For an address book with no stored ctag the call raises instead,
  and again nothing is written.
\<close>

theorem updateAddressBook_all_or_nothing:
  "((\<exists>p \<in> fst ` set mutations. \<not> recognized p) \<longrightarrow>
      updateAddressBook a mutations s = (Returned False, s)) \<and>
   ((\<forall>p \<in> fst ` set mutations. \<not> recognized p) \<longrightarrow>
      updateAddressBook a mutations s = (Returned False, s)) \<and>
   ((\<forall>p \<in> fst ` set mutations. recognized p) \<and> mutations \<noteq> [] \<and>
    distinct (map fst mutations) \<and>
    hget s (addressBookKey a) ''ctag'' = Some c \<longrightarrow>
      updateAddressBook a mutations s =
        (Returned True,
         exec_command
           (HMSET (addressBookKey a)
              ((''ctag'', String_num (js_incr (parseInt c))) #
               map (\<lambda>(p, v). (field_of p, String_val v)) mutations)) s)) \<and>
   ((\<forall>p \<in> fst ` set mutations. recognized p) \<and> mutations \<noteq> [] \<and>
    distinct (map fst mutations) \<and>
    hget s (addressBookKey a) ''ctag'' = Some (string_of_nat n) \<and> n < 2 ^ 53 \<longrightarrow>
      updateAddressBook a mutations s =
        (Returned True,
         exec_command
           (HMSET (addressBookKey a)
              ((''ctag'', string_of_nat (Suc n)) #
               map (\<lambda>(p, v). (field_of p, String_val v)) mutations)) s)) \<and>
   ((\<forall>p \<in> fst ` set mutations. recognized p) \<and> mutations \<noteq> [] \<and>
    hget s (addressBookKey a) ''ctag'' = None \<longrightarrow>
      updateAddressBook a mutations s = (Thrown TypeError, s))"
proof (intro conjI impI)
  assume "\<exists>p \<in> fst ` set mutations. \<not> recognized p"
  then have "updateAddressBook_loop mutations [] = None"
    by (rule updateAddressBook_loop_unknown)
  then show "updateAddressBook a mutations s = (Returned False, s)"
    by (simp add: updateAddressBook_unfold)
next
  assume none: "\<forall>p \<in> fst ` set mutations. \<not> recognized p"
  show "updateAddressBook a mutations s = (Returned False, s)"
  proof (cases mutations)
    case Nil
    then show ?thesis by (simp add: updateAddressBook_unfold)
  next
    case (Cons pv rest)
    with none have "\<exists>p \<in> fst ` set mutations. \<not> recognized p" by auto
    then have "updateAddressBook_loop mutations [] = None"
      by (rule updateAddressBook_loop_unknown)
    then show ?thesis by (simp add: updateAddressBook_unfold)
  qed
next
  assume h: "(\<forall>p \<in> fst ` set mutations. recognized p) \<and> mutations \<noteq> [] \<and>
    distinct (map fst mutations) \<and>
    hget s (addressBookKey a) ''ctag'' = Some c"
  then have "updateAddressBook_loop mutations [] =
      Some ([] @ map (\<lambda>(p, v). (field_of p, v)) mutations)"
    by (intro updateAddressBook_loop_recognized) auto
  moreover have "map (\<lambda>(p, v). (p, String_val v)) (map (\<lambda>(p, v). (field_of p, v)) mutations) =
      map (\<lambda>(p, v). (field_of p, String_val v)) mutations"
    by (induction mutations) auto
  ultimately show "updateAddressBook a mutations s =
        (Returned True,
         exec_command
           (HMSET (addressBookKey a)
              ((''ctag'', String_num (js_incr (parseInt c))) #
               map (\<lambda>(p, v). (field_of p, String_val v)) mutations)) s)"
    using h by (simp add: updateAddressBook_unfold Let_def del: map_map exec_command.simps)
next
  assume h: "(\<forall>p \<in> fst ` set mutations. recognized p) \<and> mutations \<noteq> [] \<and>
    distinct (map fst mutations) \<and>
    hget s (addressBookKey a) ''ctag'' = Some (string_of_nat n) \<and> n < 2 ^ 53"
  then have "updateAddressBook_loop mutations [] =
      Some ([] @ map (\<lambda>(p, v). (field_of p, v)) mutations)"
    by (intro updateAddressBook_loop_recognized) auto
  moreover have "map (\<lambda>(p, v). (p, String_val v)) (map (\<lambda>(p, v). (field_of p, v)) mutations) =
      map (\<lambda>(p, v). (field_of p, String_val v)) mutations"
    by (induction mutations) auto
  moreover from h have "String_num (js_incr (parseInt (string_of_nat n))) = string_of_nat (Suc n)"
    by (simp add: bump_numeral)
  ultimately show "updateAddressBook a mutations s =
        (Returned True,
         exec_command
           (HMSET (addressBookKey a)
              ((''ctag'', string_of_nat (Suc n)) #
               map (\<lambda>(p, v). (field_of p, String_val v)) mutations)) s)"
    using h by (simp add: updateAddressBook_unfold Let_def del: map_map exec_command.simps)
next
  assume h: "(\<forall>p \<in> fst ` set mutations. recognized p) \<and> mutations \<noteq> [] \<and>
    hget s (addressBookKey a) ''ctag'' = None"
  then have m: "mutations \<noteq> []" by simp
  show "updateAddressBook a mutations s = (Thrown TypeError, s)"
  proof (cases "updateAddressBook_loop mutations []")
    case None
    from h have "\<forall>q \<in> fst ` set mutations. recognized q" by simp
    from updateAddressBook_loop_total [OF this, of "[]"] None show ?thesis by simp
  next
    case (Some ups)
    from updateAddressBook_loop_nonempty [OF Some m] have "ups \<noteq> []" .
    with Some h show ?thesis by (simp add: updateAddressBook_unfold)
  qed
qed

theorem updateAddressBook_all_or_nothing_witness:
  "updateAddressBook 1 [(displayname_property, Str ''Home''), (''{DAV:}owner'', Str ''x'')] alice_home =
     (Returned False, alice_home) \<and>
   updateAddressBook 1 [] alice_home = (Returned False, alice_home) \<and>
   updateAddressBook 1 [(description_property, Str ''Family''), (displayname_property, Str ''Home'')]
       alice_home =
     (Returned True,
      exec_command
        (HMSET (addressBookKey 1)
           [(''ctag'', string_of_nat 2), (''description'', ''Family''), (''displayname'', ''Home'')])
        alice_home) \<and>
   updateAddressBook 1 [(displayname_property, Str ''Home'')] empty_store =
     (Thrown TypeError, empty_store)"
proof -
  have absent: "hget empty_store (addressBookKey 1) ''ctag'' = None"
    by (simp add: empty_store_def hget_def)
  from updateAddressBook_all_or_nothing
    [of "[(displayname_property, Str ''Home'')]" 1 empty_store "''1''" 1] absent
  have thrown: "updateAddressBook 1 [(displayname_property, Str ''Home'')] empty_store =
     (Thrown TypeError, empty_store)"
    by (simp add: recognized_def)
  have unknown: "\<exists>p \<in> fst ` set [(displayname_property, Str ''Home''), (''{DAV:}owner'', Str ''x'')].
      \<not> recognized p"
    by (simp add: recognized_def displayname_property_def description_property_def)
  have ctag: "hget alice_home (addressBookKey 1) ''ctag'' = Some (string_of_nat 1)"
    by code_simp
  have names: "distinct (map fst [(description_property, Str ''Family''), (displayname_property, Str ''Home'')])"
    using property_names_differ by simp
  have fields: "field_of description_property = ''description''" "field_of displayname_property = ''displayname''"
    using property_names_differ by (simp_all add: field_of_def)
  from updateAddressBook_all_or_nothing
    [of "[(displayname_property, Str ''Home''), (''{DAV:}owner'', Str ''x'')]" 1 alice_home "''1''" 1]
    unknown
  have "updateAddressBook 1 [(displayname_property, Str ''Home''), (''{DAV:}owner'', Str ''x'')] alice_home =
     (Returned False, alice_home)"
    by blast
  moreover from updateAddressBook_all_or_nothing [of "[]" 1 alice_home "''1''" 1]
  have "updateAddressBook 1 [] alice_home = (Returned False, alice_home)"
    by simp
  moreover have "updateAddressBook 1
       [(description_property, Str ''Family''), (displayname_property, Str ''Home'')] alice_home =
     (Returned True,
      exec_command
        (HMSET (addressBookKey 1)
           [(''ctag'', string_of_nat 2), (''description'', ''Family''), (''displayname'', ''Home'')])
        alice_home)"
  proof -
    let ?m = "[(description_property, Str ''Family''), (displayname_property, Str ''Home'')]"
    have known: "\<forall>p \<in> fst ` set ?m. recognized p"
      by (simp add: recognized_def)
    have some: "?m \<noteq> []"
      by simp
    have below: "(1::nat) < 2 ^ 53"
      by simp
    from updateAddressBook_all_or_nothing [of ?m 1 alice_home "''1''" 1]
      known some names ctag below
    have "updateAddressBook 1 ?m alice_home =
        (Returned True,
         exec_command
           (HMSET (addressBookKey 1)
              ((''ctag'', string_of_nat (Suc 1)) #
               map (\<lambda>(p, v). (field_of p, String_val v)) ?m)) alice_home)"
      by blast
    then show ?thesis
      by (simp add: fields numeral_2_eq_2 del: exec_command.simps)
  qed
  ultimately show ?thesis using thrown by simp
qed

text \<open>
  C8. \<^verbatim>\<open>createAddressBook\<close> with any unrecognised property name fails with BadRequest
  and leaves the store as it was: the id counter and the principal's id set are
  unchanged and \<^verbatim>\<open>getAddressBooksForUser\<close> answers as before.
\<close>

theorem createAddressBook_rejects_unknown:
  assumes "\<exists>p \<in> fst ` set properties. \<not> recognized p"
  shows "\<exists>p. p \<in> fst ` set properties \<and> \<not> recognized p \<and>
     createAddressBook principalUri url properties s =
       (Failed (BadRequest (''Unknown property: '' @ p)), s) \<and>
     counters (snd (createAddressBook principalUri url properties s)) = counters s \<and>
     hget (snd (createAddressBook principalUri url properties s)) principalIndexKey principalUri =
       hget s principalIndexKey principalUri \<and>
     getAddressBooksForUser principalUri (snd (createAddressBook principalUri url properties s)) =
       getAddressBooksForUser principalUri s"
proof -
  from createAddressBook_loop_unknown [OF assms]
  obtain p where p: "p \<in> fst ` set properties" "\<not> recognized p"
    and l: "createAddressBook_loop properties
             [(''displayname'', Null), (''description'', Null),
              (''principaluri'', Str principalUri), (''uri'', Str url)] = Inl p"
    by blast
  from l have "createAddressBook principalUri url properties s =
       (Failed (BadRequest (''Unknown property: '' @ p)), s)"
    by (simp add: createAddressBook_unfold)
  with p show ?thesis by auto
qed

theorem createAddressBook_rejects_unknown_witness:
  "createAddressBook ''principals/alice'' ''work'' [(''unknown-prop'', Str ''v'')] alice_home =
     (Failed (BadRequest ''Unknown property: unknown-prop''), alice_home) \<and>
   counters (snd (createAddressBook ''principals/alice'' ''work'' [(''unknown-prop'', Str ''v'')] alice_home)) =
     counters alice_home \<and>
   getAddressBooksForUser ''principals/alice''
     (snd (createAddressBook ''principals/alice'' ''work'' [(''unknown-prop'', Str ''v'')] alice_home)) =
     getAddressBooksForUser ''principals/alice'' alice_home"
proof -
  have "\<exists>p \<in> fst ` set [(''unknown-prop'', Str ''v'')]. \<not> recognized p"
    by (simp add: recognized_def displayname_property_def description_property_def)
  from createAddressBook_rejects_unknown [OF this, of "''principals/alice''" "''work''" alice_home]
  show ?thesis by auto
qed

section \<open>The card mutations\<close>

text \<open>
  With a ctag stored for the address book, each of the three card mutations submits one
  batch; without one, \<^verbatim>\<open>ctag.toString\<close> raises and nothing is written.
\<close>

lemma updateCard_returns:
  "hget s (addressBookKey a) ''ctag'' = Some c \<Longrightarrow>
   updateCard md5 now a u d s =
     (Returned (quoted_hash md5 d),
      multi_exec
        [HMSET (cardKey a u) [(''carddata'', d), (''lastmodified'', string_of_nat now)],
         HSET (addressBookKey a) ''ctag'' (String_num (js_incr (parseInt c)))] s)"
  by (simp add: updateCard_unfold quoted_hash_def Let_def)

lemma createCard_returns:
  "hget s (addressBookKey a) ''ctag'' = Some c \<Longrightarrow>
   createCard md5 now a u d s =
     (Returned (quoted_hash md5 d),
      multi_exec
        [HMSET (cardKey a u) [(''carddata'', d), (''lastmodified'', string_of_nat now)],
         ZADD (addressBooksTableName @ ''/'' @ cardsTableName) now u,
         HSET (addressBookKey a) ''ctag'' (String_num (js_incr (parseInt c)))] s)"
  by (simp add: createCard_unfold quoted_hash_def Let_def)

lemma deleteCard_returns:
  "hget s (addressBookKey a) ''ctag'' = Some c \<Longrightarrow>
   deleteCard a u s =
     (Returned True,
      multi_exec
        [DEL (cardKey a u),
         ZREM (addressBooksTableName @ ''/'' @ cardsTableName) u,
         HSET (addressBookKey a) ''ctag'' (String_num (js_incr (parseInt c)))] s)"
  by (simp add: deleteCard_unfold Let_def)

lemma card_call_throws:
  assumes "hget s (addressBookKey a) ''ctag'' = None"
  shows "createCard md5 now a u d s = (Thrown TypeError, s)"
    and "updateCard md5 now a u d s = (Thrown TypeError, s)"
    and "deleteCard a u s = (Thrown TypeError, s)"
  using assms by (simp_all add: createCard_unfold updateCard_unfold deleteCard_unfold)

text \<open>
  C9. \<^verbatim>\<open>updateCard\<close> leaves every sorted set, and so the card membership index, as it
  was. Its batch is the \<^verbatim>\<open>HMSET\<close> of the card's \<^verbatim>\<open>carddata\<close> and \<^verbatim>\<open>lastmodified\<close> and the
  \<^verbatim>\<open>HSET\<close> of the address book's ctag; no other hash, field or counter changes.
\<close>

theorem updateCard_leaves_index:
  "zsets (snd (updateCard md5 now a u d s)) = zsets s \<and>
   counters (snd (updateCard md5 now a u d s)) = counters s \<and>
   (\<forall>k. k \<noteq> cardKey a u \<and> k \<noteq> addressBookKey a \<longrightarrow>
        hashes (snd (updateCard md5 now a u d s)) k = hashes s k) \<and>
   (\<forall>c. hget s (addressBookKey a) ''ctag'' = Some c \<longrightarrow>
        updateCard md5 now a u d s =
          (Returned (quoted_hash md5 d),
           multi_exec
             [HMSET (cardKey a u) [(''carddata'', d), (''lastmodified'', string_of_nat now)],
              HSET (addressBookKey a) ''ctag'' (String_num (js_incr (parseInt c)))] s) \<and>
        hashes (snd (updateCard md5 now a u d s)) (cardKey a u) =
          (hashes s (cardKey a u))(''carddata'' \<mapsto> d, ''lastmodified'' \<mapsto> string_of_nat now) \<and>
        hashes (snd (updateCard md5 now a u d s)) (addressBookKey a) =
          (hashes s (addressBookKey a))(''ctag'' \<mapsto> String_num (js_incr (parseInt c)))) \<and>
   (hget s (addressBookKey a) ''ctag'' = None \<longrightarrow>
        updateCard md5 now a u d s = (Thrown TypeError, s))"
proof (intro conjI allI impI)
  show "zsets (snd (updateCard md5 now a u d s)) = zsets s"
    by (simp add: updateCard_unfold multi_exec_def Let_def split: option.splits)
  show "counters (snd (updateCard md5 now a u d s)) = counters s"
    by (simp add: updateCard_unfold multi_exec_def Let_def split: option.splits)
next
  fix k assume "k \<noteq> cardKey a u \<and> k \<noteq> addressBookKey a"
  then show "hashes (snd (updateCard md5 now a u d s)) k = hashes s k"
    by (simp add: updateCard_unfold multi_exec_def Let_def split: option.splits)
next
  fix c assume c: "hget s (addressBookKey a) ''ctag'' = Some c"
  then show "updateCard md5 now a u d s =
          (Returned (quoted_hash md5 d),
           multi_exec
             [HMSET (cardKey a u) [(''carddata'', d), (''lastmodified'', string_of_nat now)],
              HSET (addressBookKey a) ''ctag'' (String_num (js_incr (parseInt c)))] s)"
    by (rule updateCard_returns)
  from c show "hashes (snd (updateCard md5 now a u d s)) (cardKey a u) =
          (hashes s (cardKey a u))(''carddata'' \<mapsto> d, ''lastmodified'' \<mapsto> string_of_nat now)"
    by (simp add: updateCard_returns multi_exec_def)
  from c show "hashes (snd (updateCard md5 now a u d s)) (addressBookKey a) =
          (hashes s (addressBookKey a))(''ctag'' \<mapsto> String_num (js_incr (parseInt c)))"
    by (simp add: updateCard_returns multi_exec_def)
next
  assume "hget s (addressBookKey a) ''ctag'' = None"
  then show "updateCard md5 now a u d s = (Thrown TypeError, s)"
    by (rule card_call_throws)
qed

theorem updateCard_leaves_index_witness:
  "hget alice_cards (addressBookKey 1) ''ctag'' = Some ''3'' \<and>
   ''addressbooks/cards'' \<noteq> cardKey 1 ''c1.vcf'' \<and> ''addressbooks/cards'' \<noteq> addressBookKey 1 \<and>
   updateCard (\<lambda>b. b) 3000 1 ''c1.vcf'' ''BEGIN:VCARD FN:Robert END:VCARD'' alice_cards =
     (Returned (quoted_hash (\<lambda>b. b) ''BEGIN:VCARD FN:Robert END:VCARD''),
      multi_exec
        [HMSET (cardKey 1 ''c1.vcf'')
           [(''carddata'', ''BEGIN:VCARD FN:Robert END:VCARD''), (''lastmodified'', string_of_nat 3000)],
         HSET (addressBookKey 1) ''ctag'' (String_num (js_incr (parseInt ''3'')))] alice_cards) \<and>
   zsets (snd (updateCard (\<lambda>b. b) 3000 1 ''c1.vcf'' ''BEGIN:VCARD FN:Robert END:VCARD'' alice_cards)) =
     zsets alice_cards \<and>
   hashes (snd (updateCard (\<lambda>b. b) 3000 1 ''c1.vcf'' ''BEGIN:VCARD FN:Robert END:VCARD'' alice_cards))
     ''addressbooks/cards'' = hashes alice_cards ''addressbooks/cards'' \<and>
   updateCard (\<lambda>b. b) 3000 1 ''c1.vcf'' ''BEGIN:VCARD FN:Robert END:VCARD'' empty_store =
     (Thrown TypeError, empty_store)"
proof -
  have absent: "hget empty_store (addressBookKey 1) ''ctag'' = None"
    by (simp add: empty_store_def hget_def)
  from updateCard_leaves_index
    [of "\<lambda>b. b" 3000 1 "''c1.vcf''" "''BEGIN:VCARD FN:Robert END:VCARD''" empty_store] absent
  have thrown: "updateCard (\<lambda>b. b) 3000 1 ''c1.vcf'' ''BEGIN:VCARD FN:Robert END:VCARD'' empty_store =
     (Thrown TypeError, empty_store)"
    by blast
  have c: "hget alice_cards (addressBookKey 1) ''ctag'' = Some ''3''"
    by code_simp
  have k: "''addressbooks/cards'' \<noteq> cardKey 1 ''c1.vcf'' \<and> ''addressbooks/cards'' \<noteq> addressBookKey 1"
    by code_simp
  from updateCard_leaves_index
    [of "\<lambda>b. b" 3000 1 "''c1.vcf''" "''BEGIN:VCARD FN:Robert END:VCARD''" alice_cards] c k thrown
  show ?thesis by blast
qed

section \<open>The etag\<close>

lemma quoted_hash_eq: "quoted_hash md5 b = quoted_hash md5 b' \<longleftrightarrow> md5 b = md5 b'"
  by (simp add: quoted_hash_def)

lemma createCard_keeps_ctag_present:
  "hget s (addressBookKey a) ''ctag'' = Some c \<Longrightarrow>
   hget (snd (createCard md5 now a u d s)) (addressBookKey a) ''ctag'' =
     Some (String_num (js_incr (parseInt c)))"
  by (simp add: createCard_returns multi_exec_def hget_def)

lemma createCard_carddata:
  "hget s (addressBookKey a) ''ctag'' = Some c \<Longrightarrow>
   hget (snd (createCard md5 now a u d s)) (cardKey a u) ''carddata'' = Some d"
  by (simp add: createCard_returns multi_exec_def hget_def)

lemma updateCard_carddata:
  "hget s (addressBookKey a) ''ctag'' = Some c \<Longrightarrow>
   hget (snd (updateCard md5 now a u d s)) (cardKey a u) ''carddata'' = Some d"
  by (simp add: updateCard_returns multi_exec_def hget_def)

text \<open>
  The etag after a card is created with one body and updated with another: the two
  etags are the same exactly when the content hash gives the two bodies the same value,
  while the stored body is the new one.
\<close>

lemma etag_after_update:
  assumes "hget s (addressBookKey a) ''ctag'' = Some c"
  shows "fst (createCard md5 now a u b s) = Returned (quoted_hash md5 b)"
    and "fst (updateCard md5 now' a u b' (snd (createCard md5 now a u b s))) =
           Returned (quoted_hash md5 b')"
    and "hget (snd (createCard md5 now a u b s)) (cardKey a u) ''carddata'' = Some b"
    and "hget (snd (updateCard md5 now' a u b' (snd (createCard md5 now a u b s))))
           (cardKey a u) ''carddata'' = Some b'"
proof -
  from assms show "fst (createCard md5 now a u b s) = Returned (quoted_hash md5 b)"
    by (simp add: createCard_returns)
  from createCard_keeps_ctag_present [OF assms]
  show "fst (updateCard md5 now' a u b' (snd (createCard md5 now a u b s))) =
      Returned (quoted_hash md5 b')"
    by (simp add: updateCard_returns)
  from assms show "hget (snd (createCard md5 now a u b s)) (cardKey a u) ''carddata'' = Some b"
    by (rule createCard_carddata)
  from createCard_keeps_ctag_present [OF assms]
  show "hget (snd (updateCard md5 now' a u b' (snd (createCard md5 now a u b s))))
      (cardKey a u) ''carddata'' = Some b'"
    by (rule updateCard_carddata)
qed

text \<open>
  A hash whose values all have the same length gives two different bodies the same
  value: there are finitely many strings of that length and infinitely many bodies.
\<close>

lemma fixed_length_hash_collides:
  fixes md5 :: "string \<Rightarrow> string"
  assumes "\<forall>b. length (md5 b) = n"
  shows "\<exists>b b'. b \<noteq> b' \<and> md5 b = md5 b'"
proof (rule ccontr)
  assume "\<not> (\<exists>b b'. b \<noteq> b' \<and> md5 b = md5 b')"
  then have "inj md5"
    by (auto simp add: inj_on_def)
  moreover from assms have "range md5 \<subseteq> {xs. set xs \<subseteq> UNIV \<and> length xs = n}"
    by auto
  then have "finite (range md5)"
    by (rule finite_subset) (rule finite_lists_length_eq, simp)
  ultimately have "finite (UNIV :: string set)"
    by (rule finite_imageD [rotated])
  then show False
    by (simp add: infinite_UNIV_listI)
qed

lemma alice_home_ctag: "hget alice_home (addressBookKey 1) ''ctag'' = Some ''1''"
  by code_simp

text \<open>
  Counterexample to C6 as the specification states it. \<^verbatim>\<open>Util.md5\<close> gives the 32
  hexadecimal digits of the MD5 digest. Whatever function with
  32-character values stands for it, the etag does not change with every change of the
  stored body: a card of \<open>alice_home\<close> can be created with one body and updated with
  another, so that the stored \<^verbatim>\<open>carddata\<close> changes, and \<^verbatim>\<open>updateCard\<close> returns the etag
  \<^verbatim>\<open>createCard\<close> returned.
\<close>

theorem etag_kept_by_changed_body:
  "\<not> (\<exists>md5. (\<forall>b. length (md5 b) = 32) \<and>
         (\<forall>b b'.
            hget (snd (updateCard md5 2000 1 ''x.vcf'' b' (snd (createCard md5 1000 1 ''x.vcf'' b alice_home))))
              (cardKey 1 ''x.vcf'') ''carddata'' \<noteq>
            hget (snd (createCard md5 1000 1 ''x.vcf'' b alice_home)) (cardKey 1 ''x.vcf'') ''carddata'' \<longrightarrow>
            fst (updateCard md5 2000 1 ''x.vcf'' b' (snd (createCard md5 1000 1 ''x.vcf'' b alice_home))) \<noteq>
            fst (createCard md5 1000 1 ''x.vcf'' b alice_home)))"
proof
  assume "\<exists>md5. (\<forall>b. length (md5 b) = 32) \<and>
         (\<forall>b b'.
            hget (snd (updateCard md5 2000 1 ''x.vcf'' b' (snd (createCard md5 1000 1 ''x.vcf'' b alice_home))))
              (cardKey 1 ''x.vcf'') ''carddata'' \<noteq>
            hget (snd (createCard md5 1000 1 ''x.vcf'' b alice_home)) (cardKey 1 ''x.vcf'') ''carddata'' \<longrightarrow>
            fst (updateCard md5 2000 1 ''x.vcf'' b' (snd (createCard md5 1000 1 ''x.vcf'' b alice_home))) \<noteq>
            fst (createCard md5 1000 1 ''x.vcf'' b alice_home))"
  then obtain md5 :: "string \<Rightarrow> string" where
    len: "\<forall>b. length (md5 b) = 32" and
    changes: "\<And>b b'.
            hget (snd (updateCard md5 2000 1 ''x.vcf'' b' (snd (createCard md5 1000 1 ''x.vcf'' b alice_home))))
              (cardKey 1 ''x.vcf'') ''carddata'' \<noteq>
            hget (snd (createCard md5 1000 1 ''x.vcf'' b alice_home)) (cardKey 1 ''x.vcf'') ''carddata'' \<Longrightarrow>
            fst (updateCard md5 2000 1 ''x.vcf'' b' (snd (createCard md5 1000 1 ''x.vcf'' b alice_home))) \<noteq>
            fst (createCard md5 1000 1 ''x.vcf'' b alice_home)"
    by blast
  from fixed_length_hash_collides [OF len] obtain b b' where
    bb': "b \<noteq> b'" "md5 b = md5 b'" by blast
  note facts = etag_after_update [OF alice_home_ctag]
  from bb' facts(3,4) have
    "hget (snd (updateCard md5 2000 1 ''x.vcf'' b' (snd (createCard md5 1000 1 ''x.vcf'' b alice_home))))
       (cardKey 1 ''x.vcf'') ''carddata'' \<noteq>
     hget (snd (createCard md5 1000 1 ''x.vcf'' b alice_home)) (cardKey 1 ''x.vcf'') ''carddata''"
    by simp
  from changes [OF this] facts(1,2) bb' show False
    by (simp add: quoted_hash_def)
qed

text \<open>
  C6, amended. For an address book with a stored ctag, the etag \<^verbatim>\<open>createCard\<close> returns is the
  double-quoted content hash of the body, the body is what the card's \<^verbatim>\<open>carddata\<close> holds
  afterwards (and what \<^verbatim>\<open>getCard\<close> hands back), and \<^verbatim>\<open>updateCard\<close> with the same body
  returns the same etag. The etag is a function of the body alone: two bodies have the
  same etag exactly when the content hash gives them the same value. So the etag
  changes only if the stored body changes; a changed body with the same hash keeps it.
\<close>

theorem etag_is_quoted_content_hash:
  "(hget s (addressBookKey a) ''ctag'' = Some c \<longrightarrow>
      fst (createCard md5 now a u body s) = Returned (quoted_hash md5 body) \<and>
      hget (snd (createCard md5 now a u body s)) (cardKey a u) ''carddata'' = Some body \<and>
      getCard a u (snd (createCard md5 now a u body s)) =
        Returned (Card \<lparr>card_uri = Str u, carddata = Str body,
                        lastmodified = Str (string_of_nat now)\<rparr>) \<and>
      fst (updateCard md5 now' a u body (snd (createCard md5 now a u body s))) =
        Returned (quoted_hash md5 body) \<and>
      fst (updateCard md5 now' a u body' s) = Returned (quoted_hash md5 body') \<and>
      hget (snd (updateCard md5 now' a u body' s)) (cardKey a u) ''carddata'' = Some body' \<and>
      (fst (updateCard md5 now' a u body' (snd (createCard md5 now a u body s))) \<noteq>
         fst (createCard md5 now a u body s) \<longrightarrow>
       hget (snd (updateCard md5 now' a u body' (snd (createCard md5 now a u body s))))
         (cardKey a u) ''carddata'' \<noteq>
       hget (snd (createCard md5 now a u body s)) (cardKey a u) ''carddata'') \<and>
      (md5 body = md5 body' \<longrightarrow>
       fst (updateCard md5 now' a u body' (snd (createCard md5 now a u body s))) =
         fst (createCard md5 now a u body s))) \<and>
   (quoted_hash md5 body = quoted_hash md5 body' \<longleftrightarrow> md5 body = md5 body') \<and>
   (quoted_hash md5 body \<noteq> quoted_hash md5 body' \<longrightarrow> body \<noteq> body')"
proof (intro conjI impI)
  assume c: "hget s (addressBookKey a) ''ctag'' = Some c"
  then show "fst (createCard md5 now a u body s) = Returned (quoted_hash md5 body)"
    by (simp add: createCard_returns)
  from c show "hget (snd (createCard md5 now a u body s)) (cardKey a u) ''carddata'' = Some body"
    by (rule createCard_carddata)
  from c show "getCard a u (snd (createCard md5 now a u body s)) =
        Returned (Card \<lparr>card_uri = Str u, carddata = Str body,
                        lastmodified = Str (string_of_nat now)\<rparr>)"
    by (simp add: createCard_returns multi_exec_def getCard_def hmget_def fromMultiBulk_def js_at_def)
  from createCard_keeps_ctag_present [OF c]
  show "fst (updateCard md5 now' a u body (snd (createCard md5 now a u body s))) =
        Returned (quoted_hash md5 body)"
    by (simp add: updateCard_returns)
  from c show "fst (updateCard md5 now' a u body' s) = Returned (quoted_hash md5 body')"
    by (simp add: updateCard_returns)
  from c show "hget (snd (updateCard md5 now' a u body' s)) (cardKey a u) ''carddata'' = Some body'"
    by (rule updateCard_carddata)
  note facts = etag_after_update [OF c]
  {
    assume "fst (updateCard md5 now' a u body' (snd (createCard md5 now a u body s))) \<noteq>
         fst (createCard md5 now a u body s)"
    with facts(1,2) have "body \<noteq> body'"
      by auto
    with facts(3,4)
    show "hget (snd (updateCard md5 now' a u body' (snd (createCard md5 now a u body s))))
         (cardKey a u) ''carddata'' \<noteq>
       hget (snd (createCard md5 now a u body s)) (cardKey a u) ''carddata''"
      by simp
  }
  {
    assume "md5 body = md5 body'"
    with facts(1,2)
    show "fst (updateCard md5 now' a u body' (snd (createCard md5 now a u body s))) =
         fst (createCard md5 now a u body s)"
      by (simp add: quoted_hash_def)
  }
next
  show "quoted_hash md5 body = quoted_hash md5 body' \<longleftrightarrow> md5 body = md5 body'"
    by (rule quoted_hash_eq)
next
  assume "quoted_hash md5 body \<noteq> quoted_hash md5 body'"
  then show "body \<noteq> body'"
    by auto
qed

theorem etag_is_quoted_content_hash_witness:
  "hget alice_home (addressBookKey 1) ''ctag'' = Some ''1'' \<and>
   fst (createCard prefix_hash 1000 1 ''x.vcf'' ''BEGIN:VCARD FN:Bob END:VCARD'' alice_home) =
     Returned (quoted_hash prefix_hash ''BEGIN:VCARD FN:Bob END:VCARD'') \<and>
   fst (updateCard prefix_hash 2000 1 ''x.vcf'' ''BEGIN:VCARD FN:Bob END:VCARD''
          (snd (createCard prefix_hash 1000 1 ''x.vcf'' ''BEGIN:VCARD FN:Bob END:VCARD'' alice_home))) =
     Returned (quoted_hash prefix_hash ''BEGIN:VCARD FN:Bob END:VCARD'') \<and>
   hget (snd (createCard prefix_hash 1000 1 ''x.vcf'' ''BEGIN:VCARD FN:Bob END:VCARD'' alice_home))
     (cardKey 1 ''x.vcf'') ''carddata'' = Some ''BEGIN:VCARD FN:Bob END:VCARD'' \<and>
   quoted_hash prefix_hash ''BEGIN:VCARD FN:Bob END:VCARD'' \<noteq>
     quoted_hash prefix_hash ''BEGIN:VCARD FN:Rob END:VCARD'' \<and>
   prefix_hash ''BEGIN:VCARD VERSION:3.0 FN:Bob TEL:1 END:VCARD'' =
     prefix_hash ''BEGIN:VCARD VERSION:3.0 FN:Bob TEL:2 END:VCARD'' \<and>
   fst (updateCard prefix_hash 2000 1 ''x.vcf'' ''BEGIN:VCARD VERSION:3.0 FN:Bob TEL:2 END:VCARD''
          (snd (createCard prefix_hash 1000 1 ''x.vcf'' ''BEGIN:VCARD VERSION:3.0 FN:Bob TEL:1 END:VCARD''
                  alice_home))) =
     fst (createCard prefix_hash 1000 1 ''x.vcf'' ''BEGIN:VCARD VERSION:3.0 FN:Bob TEL:1 END:VCARD''
            alice_home)"
proof -
  have c: "hget alice_home (addressBookKey 1) ''ctag'' = Some ''1''"
    by code_simp
  have d: "''BEGIN:VCARD FN:Bob END:VCARD'' \<noteq> ''BEGIN:VCARD FN:Rob END:VCARD''"
    by simp
  have h: "quoted_hash prefix_hash ''BEGIN:VCARD FN:Bob END:VCARD'' \<noteq>
     quoted_hash prefix_hash ''BEGIN:VCARD FN:Rob END:VCARD''"
    by code_simp
  have e: "prefix_hash ''BEGIN:VCARD VERSION:3.0 FN:Bob TEL:1 END:VCARD'' =
     prefix_hash ''BEGIN:VCARD VERSION:3.0 FN:Bob TEL:2 END:VCARD''"
    by code_simp
  from etag_is_quoted_content_hash
    [of alice_home 1 "''1''" prefix_hash 1000 "''x.vcf''" "''BEGIN:VCARD FN:Bob END:VCARD''" 2000
      "''BEGIN:VCARD FN:Rob END:VCARD''"] c
  have 1: "fst (createCard prefix_hash 1000 1 ''x.vcf'' ''BEGIN:VCARD FN:Bob END:VCARD'' alice_home) =
     Returned (quoted_hash prefix_hash ''BEGIN:VCARD FN:Bob END:VCARD'')"
   and 2: "fst (updateCard prefix_hash 2000 1 ''x.vcf'' ''BEGIN:VCARD FN:Bob END:VCARD''
          (snd (createCard prefix_hash 1000 1 ''x.vcf'' ''BEGIN:VCARD FN:Bob END:VCARD'' alice_home))) =
     Returned (quoted_hash prefix_hash ''BEGIN:VCARD FN:Bob END:VCARD'')"
   and 3: "hget (snd (createCard prefix_hash 1000 1 ''x.vcf'' ''BEGIN:VCARD FN:Bob END:VCARD'' alice_home))
     (cardKey 1 ''x.vcf'') ''carddata'' = Some ''BEGIN:VCARD FN:Bob END:VCARD''"
    by blast+
  from etag_is_quoted_content_hash
    [of alice_home 1 "''1''" prefix_hash 1000 "''x.vcf''"
      "''BEGIN:VCARD VERSION:3.0 FN:Bob TEL:1 END:VCARD''" 2000
      "''BEGIN:VCARD VERSION:3.0 FN:Bob TEL:2 END:VCARD''"] c e
  have 4: "fst (updateCard prefix_hash 2000 1 ''x.vcf'' ''BEGIN:VCARD VERSION:3.0 FN:Bob TEL:2 END:VCARD''
          (snd (createCard prefix_hash 1000 1 ''x.vcf'' ''BEGIN:VCARD VERSION:3.0 FN:Bob TEL:1 END:VCARD''
                  alice_home))) =
     fst (createCard prefix_hash 1000 1 ''x.vcf'' ''BEGIN:VCARD VERSION:3.0 FN:Bob TEL:1 END:VCARD''
            alice_home)"
    by blast
  from c 1 2 3 h e 4 show ?thesis
    by blast
qed

section \<open>Index data that does not parse\<close>

lemma JSON_parse_empty_array [simp]: "JSON_parse ''[]'' = IdArray []"
  by code_simp

lemma store_eqI:
  "hashes s = hashes t \<Longrightarrow> zsets s = zsets t \<Longrightarrow> counters s = counters t \<Longrightarrow>
   (s :: store) = t"
  by simp



lemma fold_DEL:
  "fold exec_command (map DEL ks) t =
     t\<lparr>hashes := (\<lambda>k. if k \<in> set ks then Map.empty else hashes t k),
       zsets := (\<lambda>k. if k \<in> set ks then [] else zsets t k),
       counters := (\<lambda>k. if k \<in> set ks then None else counters t k)\<rparr>"
proof (induction ks arbitrary: t)
  case Nil
  then show ?case by simp
next
  case (Cons k ks)
  show ?case
    by (simp add: Cons.IH) (auto intro!: store_eqI)
qed

lemma deleteAddressBook_returns:
  assumes "hget s (addressBookKey a) ''pricipaluri'' = Some P"
    and "parse_reply (hget s principalIndexKey P) \<noteq> OtherJSON"
  shows "deleteAddressBook a s =
     (Returned (),
      multi_exec
        ([DEL (addressBookKey a), DEL (bookCardsKey a),
          HSET principalIndexKey P
            (JSON_stringify (remove1 a
               (case parse_reply (hget s principalIndexKey P) of IdArray is \<Rightarrow> is | _ \<Rightarrow> [])))] @
         map DEL (map (\<lambda>cardUri. cardKey a (String_val cardUri))
           (fromMultiBulk (zrange_all s (bookCardsKey a))))) s)"
  using assms
  by (cases "parse_reply (hget s principalIndexKey P)")
    (simp_all add: deleteAddressBook_unfold Let_def comp_def)




section \<open>The ctag when calls come one after the other\<close>

lemma fold_upd_other:
  "f \<notin> fst ` set fvs \<Longrightarrow> fold (\<lambda>(f, v) h. h(f \<mapsto> v)) fvs h f = h f"
  by (induction fvs arbitrary: h) auto

lemma updateAddressBook_loop_fields:
  "updateAddressBook_loop mutations updates = Some ups \<Longrightarrow>
   fst ` set ups \<subseteq> fst ` set updates \<union> {''displayname'', ''description''}"
proof (induction mutations arbitrary: updates)
  case Nil
  then show ?case by auto
next
  case (Cons pv rest)
  obtain p v where pv: "pv = (p, v)" by (cases pv)
  from Cons.prems pv consider
      (dn) "updateAddressBook_loop rest (AList.update ''displayname'' v updates) = Some ups"
    | (ds) "updateAddressBook_loop rest (AList.update ''description'' v updates) = Some ups"
    by (auto split: if_splits)
  then show ?case
  proof cases
    case dn
    from Cons.IH [OF this] show ?thesis by (auto simp add: AList.dom_update)
  next
    case ds
    from Cons.IH [OF this] show ?thesis by (auto simp add: AList.dom_update)
  qed
qed

lemma createAddressBook_loop_fields:
  "createAddressBook_loop props vals = Inr vs \<Longrightarrow>
   fst ` set vs \<subseteq> fst ` set vals \<union> {''displayname'', ''description''}"
proof (induction props arbitrary: vals)
  case Nil
  then show ?case by auto
next
  case (Cons pv rest)
  obtain p v where pv: "pv = (p, v)" by (cases pv)
  from Cons.prems pv consider
      (dn) "createAddressBook_loop rest (AList.update ''displayname'' v vals) = Inr vs"
    | (ds) "createAddressBook_loop rest (AList.update ''description'' v vals) = Inr vs"
    by (auto split: if_splits)
  then show ?case
  proof cases
    case dn
    from Cons.IH [OF this] show ?thesis by (auto simp add: AList.dom_update)
  next
    case ds
    from Cons.IH [OF this] show ?thesis by (auto simp add: AList.dom_update)
  qed
qed

text \<open>What each call does to the stored ctags and to the id counter.\<close>

lemma createCard_ctag:
  "hget (snd (createCard md5 now a u d s)) (addressBookKey b) ''ctag'' =
     (if b = a then map_option bump (hget s (addressBookKey a) ''ctag'')
      else hget s (addressBookKey b) ''ctag'')"
  by (cases "hget s (addressBookKey a) ''ctag''")
    (simp_all add: createCard_returns card_call_throws multi_exec_def hget_def bump_def)

lemma updateCard_ctag:
  "hget (snd (updateCard md5 now a u d s)) (addressBookKey b) ''ctag'' =
     (if b = a then map_option bump (hget s (addressBookKey a) ''ctag'')
      else hget s (addressBookKey b) ''ctag'')"
  by (cases "hget s (addressBookKey a) ''ctag''")
    (simp_all add: updateCard_returns card_call_throws multi_exec_def hget_def bump_def)

lemma deleteCard_ctag:
  "hget (snd (deleteCard a u s)) (addressBookKey b) ''ctag'' =
     (if b = a then map_option bump (hget s (addressBookKey a) ''ctag'')
      else hget s (addressBookKey b) ''ctag'')"
  by (cases "hget s (addressBookKey a) ''ctag''")
    (simp_all add: deleteCard_returns card_call_throws multi_exec_def hget_def bump_def)

lemma card_call_allocated:
  "allocated (snd (createCard md5 now a u d s)) = allocated s"
  "allocated (snd (updateCard md5 now a u d s)) = allocated s"
  "allocated (snd (deleteCard a u s)) = allocated s"
  by (cases "hget s (addressBookKey a) ''ctag''";
      simp add: createCard_returns updateCard_returns deleteCard_returns card_call_throws
        multi_exec_def allocated_def)+

lemma updateAddressBook_ctag:
  "hget (snd (updateAddressBook a mutations s)) (addressBookKey b) ''ctag'' =
     hget s (addressBookKey b) ''ctag'' \<or>
   b = a \<and> hget (snd (updateAddressBook a mutations s)) (addressBookKey b) ''ctag'' =
     map_option bump (hget s (addressBookKey a) ''ctag'')"
proof (cases "updateAddressBook_loop mutations []")
  case None
  then show ?thesis by (simp add: updateAddressBook_unfold)
next
  case (Some ups)
  from updateAddressBook_loop_fields [OF this]
  have "''ctag'' \<notin> fst ` set ups" by auto
  then have "''ctag'' \<notin> fst ` set (map (\<lambda>(p, v). (p, String_val v)) ups)"
    by (auto simp add: image_iff)
  from fold_upd_other [OF this] Some show ?thesis
    by (cases "hget s (addressBookKey a) ''ctag''")
      (auto simp add: updateAddressBook_unfold Let_def hget_def bump_def)
qed

lemma updateAddressBook_allocated:
  "allocated (snd (updateAddressBook a mutations s)) = allocated s"
  by (simp add: updateAddressBook_unfold allocated_def Let_def split: option.splits)

lemma number_text_one [simp]: "number_text (Suc 0) = string_of_nat (Suc 0)"
  by (simp add: number_text_def)

lemma createAddressBook_cases:
  "(\<exists>e. createAddressBook P url props s = (Failed e, s)) \<or>
   createAddressBook P url props s = (Unmodelled, s) \<or>
   (\<exists>ids vals. fst ` set vals \<subseteq> {''displayname'', ''description'', ''principaluri'', ''uri''} \<and>
      createAddressBook P url props s =
        (Returned (),
         multi_exec
           [HSET principalIndexKey P (JSON_stringify (ids @ [Suc (allocated s)])),
            HMSET (addressBookKey (Suc (allocated s))) ((''ctag'', string_of_nat 1) # vals)]
           (s\<lparr>counters := (counters s)(idKey \<mapsto> Suc (allocated s))\<rparr>)))"
proof (cases "createAddressBook_loop props
             [(''displayname'', Null), (''description'', Null),
              (''principaluri'', Str P), (''uri'', Str url)]")
  case (Inl p)
  then show ?thesis by (simp add: createAddressBook_unfold)
next
  case (Inr vs)
  from createAddressBook_loop_fields [OF this]
  have "fst ` set vs \<subseteq> {''displayname'', ''description'', ''principaluri'', ''uri''}" by auto
  then have c: "fst ` set (map (\<lambda>(p, v). (p, String_val v)) vs) \<subseteq>
      {''displayname'', ''description'', ''principaluri'', ''uri''}"
    by (auto simp add: image_iff)
  show ?thesis
  proof (cases "parse_reply (hget s principalIndexKey P)")
    case OtherJSON
    with Inr show ?thesis by (simp add: createAddressBook_unfold)
  next
    case (Raised ex)
    with Inr c show ?thesis
      by (intro disjI2 exI [of _ "[]"] exI [of _ "map (\<lambda>(p, v). (p, String_val v)) vs"])
        (simp add: createAddressBook_unfold incr_def allocated_def Let_def)
  next
    case (IdArray ids)
    with Inr c show ?thesis
      by (intro disjI2 exI [of _ ids] exI [of _ "map (\<lambda>(p, v). (p, String_val v)) vs"])
        (simp add: createAddressBook_unfold incr_def allocated_def Let_def)
  qed
qed

lemma createAddressBook_ctag:
  "hget (snd (createAddressBook P url props s)) (addressBookKey b) ''ctag'' =
     hget s (addressBookKey b) ''ctag'' \<and>
   allocated (snd (createAddressBook P url props s)) = allocated s \<or>
   hget (snd (createAddressBook P url props s)) (addressBookKey b) ''ctag'' =
     (if b = Suc (allocated s) then Some (string_of_nat 1) else hget s (addressBookKey b) ''ctag'') \<and>
   allocated (snd (createAddressBook P url props s)) = Suc (allocated s)"
proof -
  from createAddressBook_cases [of P url props s] consider
      (failed) e where "createAddressBook P url props s = (Failed e, s)"
    | (unmodelled) "createAddressBook P url props s = (Unmodelled, s)"
    | (created) ids vals where
        "fst ` set vals \<subseteq> {''displayname'', ''description'', ''principaluri'', ''uri''}"
        "createAddressBook P url props s =
          (Returned (),
           multi_exec
             [HSET principalIndexKey P (JSON_stringify (ids @ [Suc (allocated s)])),
              HMSET (addressBookKey (Suc (allocated s))) ((''ctag'', string_of_nat 1) # vals)]
             (s\<lparr>counters := (counters s)(idKey \<mapsto> Suc (allocated s))\<rparr>))"
    by blast
  then show ?thesis
  proof cases
    case failed
    then show ?thesis by simp
  next
    case unmodelled
    then show ?thesis by simp
  next
    case created
    from created(1) have "''ctag'' \<notin> fst ` set vals" by auto
    with created(2) show ?thesis
      by (simp add: multi_exec_def hget_def allocated_def fold_upd_other)
  qed
qed

lemma deleteAddressBook_ctag:
  "allocated (snd (deleteAddressBook a s)) = allocated s \<and>
   (hget (snd (deleteAddressBook a s)) (addressBookKey b) ''ctag'' = hget s (addressBookKey b) ''ctag'' \<or>
    b = a \<and> hget (snd (deleteAddressBook a s)) (addressBookKey b) ''ctag'' = None)"
proof (cases "hget s (addressBookKey a) ''pricipaluri''")
  case None
  then show ?thesis by (simp add: deleteAddressBook_throws)
next
  case (Some P)
  show ?thesis
  proof (cases "parse_reply (hget s principalIndexKey P) = OtherJSON")
    case True
    with Some show ?thesis by (simp add: deleteAddressBook_unfold)
  next
    case False
    show ?thesis
      unfolding deleteAddressBook_returns [OF Some False]
      by (auto simp add: multi_exec_def fold_DEL hget_def allocated_def simp del: map_map)
  qed
qed

text \<open>The invariant holds in the empty store and is kept by every call.\<close>

lemma bump_numeral': "n < 2 ^ 53 \<Longrightarrow> bump (string_of_nat n) = string_of_nat (Suc n)"
  by (simp add: bump_def bump_numeral)

lemma bump_limit': "bump (string_of_nat (2 ^ 53)) = string_of_nat (2 ^ 53)"
  unfolding bump_def by (rule bump_limit)

lemma bump_cases:
  assumes "n \<le> 2 ^ 53"
  shows "bump (string_of_nat n) = string_of_nat (if n < 2 ^ 53 then Suc n else n)"
proof (cases "n < 2 ^ 53")
  case True
  then show ?thesis by (simp add: bump_numeral')
next
  case False
  with assms have e: "n = 2 ^ 53" by simp
  have "bump (string_of_nat n) = string_of_nat n"
    unfolding e by (rule bump_limit')
  with False show ?thesis by (simp only: if_False)
qed

lemma ctag_inv_empty: "ctag_inv empty_store"
  by (simp add: ctag_inv_def empty_store_def hget_def)

lemma ctag_inv_bump:
  assumes inv: "ctag_inv s"
    and a: "allocated s' = allocated s"
    and c: "\<And>b. hget s' (addressBookKey b) ''ctag'' = hget s (addressBookKey b) ''ctag'' \<or>
        hget s' (addressBookKey b) ''ctag'' = map_option bump (hget s (addressBookKey b) ''ctag'') \<or>
        hget s' (addressBookKey b) ''ctag'' = None"
  shows "ctag_inv s'"
  unfolding ctag_inv_def
proof (intro allI impI)
  fix b c' assume h: "hget s' (addressBookKey b) ''ctag'' = Some c'"
  from c [of b] h consider
      (same) "hget s (addressBookKey b) ''ctag'' = Some c'"
    | (bumped) c0 where "hget s (addressBookKey b) ''ctag'' = Some c0" "c' = bump c0"
    by (cases "hget s (addressBookKey b) ''ctag''") auto
  then show "(\<exists>n. c' = string_of_nat n \<and> 0 < n \<and> n \<le> 2 ^ 53) \<and> b \<le> allocated s'"
  proof cases
    case same
    with inv a show ?thesis by (simp add: ctag_inv_def)
  next
    case bumped
    with inv obtain n where n: "c0 = string_of_nat n" "0 < n" "n \<le> 2 ^ 53" "b \<le> allocated s"
      unfolding ctag_inv_def by blast
    from bumped n bump_cases [OF n(3)]
    have "c' = string_of_nat (if n < 2 ^ 53 then Suc n else n)" by simp
    moreover from n have "0 < (if n < 2 ^ 53 then Suc n else n)"
      and "(if n < 2 ^ 53 then Suc n else n) \<le> 2 ^ 53" by auto
    ultimately have "\<exists>m. c' = string_of_nat m \<and> 0 < m \<and> m \<le> 2 ^ 53" by blast
    with n a show ?thesis by simp
  qed
qed

lemma ctag_inv_step: "ctag_inv s \<Longrightarrow> ctag_inv (store_after md5 operation s)"
proof (cases operation)
  case (UpdateAddressBook a mutations)
  assume inv: "ctag_inv s"
  show ?thesis
    unfolding UpdateAddressBook store_after.simps
  proof (rule ctag_inv_bump [OF inv])
    show "allocated (snd (updateAddressBook a mutations s)) = allocated s"
      by (rule updateAddressBook_allocated)
  next
    fix b
    from updateAddressBook_ctag [of a mutations s b]
    show "hget (snd (updateAddressBook a mutations s)) (addressBookKey b) ''ctag'' =
          hget s (addressBookKey b) ''ctag'' \<or>
        hget (snd (updateAddressBook a mutations s)) (addressBookKey b) ''ctag'' =
          map_option bump (hget s (addressBookKey b) ''ctag'') \<or>
        hget (snd (updateAddressBook a mutations s)) (addressBookKey b) ''ctag'' = None"
      by blast
  qed
next
  case (CreateAddressBook P url props)
  assume inv: "ctag_inv s"
  let ?s' = "snd (createAddressBook P url props s)"
  show ?thesis
    unfolding CreateAddressBook store_after.simps ctag_inv_def
  proof (intro allI impI)
    fix b c assume h: "hget ?s' (addressBookKey b) ''ctag'' = Some c"
    from createAddressBook_ctag [of P url props s b] consider
        (unchanged) "hget ?s' (addressBookKey b) ''ctag'' = hget s (addressBookKey b) ''ctag''"
          "allocated ?s' = allocated s"
      | (other) "b \<noteq> Suc (allocated s)"
          "hget ?s' (addressBookKey b) ''ctag'' = hget s (addressBookKey b) ''ctag''"
          "allocated ?s' = Suc (allocated s)"
      | (fresh) "b = Suc (allocated s)"
          "hget ?s' (addressBookKey b) ''ctag'' = Some (string_of_nat 1)"
          "allocated ?s' = Suc (allocated s)"
      by (cases "b = Suc (allocated s)") auto
    then show "(\<exists>n. c = string_of_nat n \<and> 0 < n \<and> n \<le> 2 ^ 53) \<and> b \<le> allocated ?s'"
    proof cases
      case unchanged
      with h inv show ?thesis by (simp add: ctag_inv_def)
    next
      case other
      with h inv have "(\<exists>n. c = string_of_nat n \<and> 0 < n \<and> n \<le> 2 ^ 53) \<and> b \<le> allocated s"
        by (simp add: ctag_inv_def)
      with other show ?thesis by simp
    next
      case fresh
      with h have "c = string_of_nat 1 \<and> 0 < (1::nat) \<and> (1::nat) \<le> 2 ^ 53" by simp
      then have "\<exists>n. c = string_of_nat n \<and> 0 < n \<and> n \<le> 2 ^ 53" by blast
      with fresh show ?thesis by auto
    qed
  qed
next
  case (DeleteAddressBook a)
  assume inv: "ctag_inv s"
  show ?thesis
    unfolding DeleteAddressBook store_after.simps
  proof (rule ctag_inv_bump [OF inv])
    show "allocated (snd (deleteAddressBook a s)) = allocated s"
      using deleteAddressBook_ctag [of a s a] by simp
  next
    fix b
    from deleteAddressBook_ctag [of a s b]
    show "hget (snd (deleteAddressBook a s)) (addressBookKey b) ''ctag'' =
          hget s (addressBookKey b) ''ctag'' \<or>
        hget (snd (deleteAddressBook a s)) (addressBookKey b) ''ctag'' =
          map_option bump (hget s (addressBookKey b) ''ctag'') \<or>
        hget (snd (deleteAddressBook a s)) (addressBookKey b) ''ctag'' = None"
      by auto
  qed
next
  case (CreateCard now a u d)
  assume "ctag_inv s"
  then show ?thesis
    unfolding CreateCard store_after.simps
    by (rule ctag_inv_bump) (simp_all add: createCard_ctag card_call_allocated)
next
  case (UpdateCard now a u d)
  assume "ctag_inv s"
  then show ?thesis
    unfolding UpdateCard store_after.simps
    by (rule ctag_inv_bump) (simp_all add: updateCard_ctag card_call_allocated)
next
  case (DeleteCard a u)
  assume "ctag_inv s"
  then show ?thesis
    unfolding DeleteCard store_after.simps
    by (rule ctag_inv_bump) (simp_all add: deleteCard_ctag card_call_allocated)
qed simp_all

lemma sequential_ctag_inv: "sequential s \<Longrightarrow> ctag_inv s"
  by (induction rule: sequential.induct) (simp_all add: ctag_inv_empty ctag_inv_step)

lemma store_after_ctag:
  assumes inv: "ctag_inv s" and c: "hget s (addressBookKey a) ''ctag'' = Some c"
  shows "hget (store_after md5 operation s) (addressBookKey a) ''ctag'' \<in> {None, Some c, Some (bump c)}"
proof (cases operation)
  case (UpdateAddressBook a' mutations)
  from updateAddressBook_ctag [of a' mutations s a] c show ?thesis
    unfolding UpdateAddressBook store_after.simps by auto
next
  case (CreateAddressBook P url props)
  from inv c have "a \<noteq> Suc (allocated s)"
    unfolding ctag_inv_def by fastforce
  with createAddressBook_ctag [of P url props s a] c show ?thesis
    unfolding CreateAddressBook store_after.simps by auto
next
  case (DeleteAddressBook a')
  from deleteAddressBook_ctag [of a' s a] c show ?thesis
    unfolding DeleteAddressBook store_after.simps by auto
next
  case (CreateCard now a' u d)
  from c show ?thesis
    unfolding CreateCard store_after.simps by (auto simp add: createCard_ctag)
next
  case (UpdateCard now a' u d)
  from c show ?thesis
    unfolding UpdateCard store_after.simps by (auto simp add: updateCard_ctag)
next
  case (DeleteCard a' u)
  from c show ?thesis
    unfolding DeleteCard store_after.simps by (auto simp add: deleteCard_ctag)
qed (simp_all add: c)

lemma stored_ctag_numeral:
  assumes "ctag_inv s" and c: "hget s (addressBookKey a) ''ctag'' = Some c"
  shows "\<exists>n. c = string_of_nat n \<and> 0 < n \<and> n \<le> 2 ^ 53 \<and> stored_ctag s a = Some (Num (int n))"
proof -
  from assms obtain n where n: "c = string_of_nat n" "0 < n" "n \<le> 2 ^ 53"
    unfolding ctag_inv_def by blast
  from c n have "stored_ctag s a = Some (Num (int n))"
    by (simp add: stored_ctag_def parseInt_string_of_nat)
  with n show ?thesis by blast
qed

lemma stored_ctag_Some:
  "stored_ctag s a = Some x \<Longrightarrow> \<exists>c. hget s (addressBookKey a) ''ctag'' = Some c \<and> x = parseInt c"
  unfolding stored_ctag_def by auto

lemma sequential_alice_home: "sequential alice_home"
  using sequential_step [OF sequential_empty, of "\<lambda>b. b" "CreateAddressBook ''principals/alice'' ''home'' []"]
  by (simp add: alice_home_def)

lemma bumped_ctag:
  assumes inv: "ctag_inv s" and c: "hget s (addressBookKey a) ''ctag'' = Some c"
  obtains n where "0 < n" and "n \<le> 2 ^ 53" and "c = string_of_nat n"
    and "stored_ctag s a = Some (Num (int n))"
    and "bump c = string_of_nat (if n < 2 ^ 53 then n + 1 else n)"
    and "parseInt (bump c) = Num (int (if n < 2 ^ 53 then n + 1 else n))"
proof -
  from stored_ctag_numeral [OF inv c] obtain n where
    n: "c = string_of_nat n" "0 < n" "n \<le> 2 ^ 53" "stored_ctag s a = Some (Num (int n))"
    by blast
  let ?m = "if n < 2 ^ 53 then n + 1 else n"
  from n(3) have m: "?m \<le> 2 ^ 53" by auto
  from bump_cases [OF n(3)] n(1) have b: "bump c = string_of_nat ?m" by simp
  from parseInt_string_of_nat [OF m] b have "parseInt (bump c) = Num (int ?m)"
    by (simp only:)
  with n b that show thesis
    by blast
qed

text \<open>
  C1, amended. When every call ends before the next begins: a \<^verbatim>\<open>createCard\<close>,
  \<^verbatim>\<open>updateCard\<close> or
  \<^verbatim>\<open>deleteCard\<close> that succeeds found a ctag \<open>n\<close> stored for the address book, with
  \<open>0 < n \<le> 2\<^sup>5\<^sup>3\<close>, and leaves \<open>n + 1\<close> if \<open>n\<close> is below \<open>2\<^sup>5\<^sup>3\<close>, written by the \<^verbatim>\<open>HSET\<close>
  that closes the batch of its other commands; at \<open>2\<^sup>5\<^sup>3\<close> the ctag stays as it is. And
  whatever the call, an address book whose ctag is \<open>n\<close> has ctag \<open>n\<close> or \<open>n + 1\<close>
  afterwards, or no ctag because it is gone: the ctag is never decremented or reset.
\<close>

theorem ctag_counts_mutations:
  assumes "sequential s"
  shows
   "(\<forall>r s'. createCard md5 now a u d s = (Returned r, s') \<longrightarrow>
       (\<exists>n. 0 < n \<and> n \<le> 2 ^ 53 \<and> stored_ctag s a = Some (Num (int n)) \<and>
          stored_ctag s' a = Some (Num (int (if n < 2 ^ 53 then n + 1 else n))) \<and>
          s' = multi_exec
                 [HMSET (cardKey a u) [(''carddata'', d), (''lastmodified'', string_of_nat now)],
                  ZADD (addressBooksTableName @ ''/'' @ cardsTableName) now u,
                  HSET (addressBookKey a) ''ctag''
                    (string_of_nat (if n < 2 ^ 53 then n + 1 else n))] s)) \<and>
    (\<forall>r s'. updateCard md5 now a u d s = (Returned r, s') \<longrightarrow>
       (\<exists>n. 0 < n \<and> n \<le> 2 ^ 53 \<and> stored_ctag s a = Some (Num (int n)) \<and>
          stored_ctag s' a = Some (Num (int (if n < 2 ^ 53 then n + 1 else n))) \<and>
          s' = multi_exec
                 [HMSET (cardKey a u) [(''carddata'', d), (''lastmodified'', string_of_nat now)],
                  HSET (addressBookKey a) ''ctag''
                    (string_of_nat (if n < 2 ^ 53 then n + 1 else n))] s)) \<and>
    (\<forall>r s'. deleteCard a u s = (Returned r, s') \<longrightarrow>
       (\<exists>n. 0 < n \<and> n \<le> 2 ^ 53 \<and> stored_ctag s a = Some (Num (int n)) \<and>
          stored_ctag s' a = Some (Num (int (if n < 2 ^ 53 then n + 1 else n))) \<and>
          s' = multi_exec
                 [DEL (cardKey a u),
                  ZREM (addressBooksTableName @ ''/'' @ cardsTableName) u,
                  HSET (addressBookKey a) ''ctag''
                    (string_of_nat (if n < 2 ^ 53 then n + 1 else n))] s)) \<and>
    (\<forall>operation n. stored_ctag s a = Some (Num n) \<longrightarrow>
       stored_ctag (store_after md5 operation s) a \<in> {None, Some (Num n), Some (Num (n + 1))})"
proof -
  from assms have inv: "ctag_inv s" by (rule sequential_ctag_inv)
  have create: "\<exists>n. 0 < n \<and> n \<le> 2 ^ 53 \<and> stored_ctag s a = Some (Num (int n)) \<and>
          stored_ctag s' a = Some (Num (int (if n < 2 ^ 53 then n + 1 else n))) \<and>
          s' = multi_exec
                 [HMSET (cardKey a u) [(''carddata'', d), (''lastmodified'', string_of_nat now)],
                  ZADD (addressBooksTableName @ ''/'' @ cardsTableName) now u,
                  HSET (addressBookKey a) ''ctag''
                    (string_of_nat (if n < 2 ^ 53 then n + 1 else n))] s"
    if h: "createCard md5 now a u d s = (Returned r, s')" for r s'
  proof -
    from h obtain c where c: "hget s (addressBookKey a) ''ctag'' = Some c"
      by (cases "hget s (addressBookKey a) ''ctag''") (auto simp add: card_call_throws)
    from bumped_ctag [OF inv c] obtain n where
      n: "0 < n" "n \<le> 2 ^ 53" "stored_ctag s a = Some (Num (int n))"
        "bump c = string_of_nat (if n < 2 ^ 53 then n + 1 else n)"
        "parseInt (bump c) = Num (int (if n < 2 ^ 53 then n + 1 else n))"
      by blast
    from h createCard_returns [OF c, of md5 now u d]
    have "s' = multi_exec
                 [HMSET (cardKey a u) [(''carddata'', d), (''lastmodified'', string_of_nat now)],
                  ZADD (addressBooksTableName @ ''/'' @ cardsTableName) now u,
                  HSET (addressBookKey a) ''ctag'' (bump c)] s"
      by (simp add: bump_def)
    with n(4) have s': "s' = multi_exec
                 [HMSET (cardKey a u) [(''carddata'', d), (''lastmodified'', string_of_nat now)],
                  ZADD (addressBooksTableName @ ''/'' @ cardsTableName) now u,
                  HSET (addressBookKey a) ''ctag''
                    (string_of_nat (if n < 2 ^ 53 then n + 1 else n))] s"
      by (simp only:)
    from createCard_ctag [of md5 now a u d s a] h c
    have "stored_ctag s' a = Some (parseInt (bump c))"
      by (simp add: stored_ctag_def)
    with n(5) have "stored_ctag s' a = Some (Num (int (if n < 2 ^ 53 then n + 1 else n)))"
      by (simp only:)
    with n(1,2,3) s' show ?thesis by blast
  qed
  have update: "\<exists>n. 0 < n \<and> n \<le> 2 ^ 53 \<and> stored_ctag s a = Some (Num (int n)) \<and>
          stored_ctag s' a = Some (Num (int (if n < 2 ^ 53 then n + 1 else n))) \<and>
          s' = multi_exec
                 [HMSET (cardKey a u) [(''carddata'', d), (''lastmodified'', string_of_nat now)],
                  HSET (addressBookKey a) ''ctag''
                    (string_of_nat (if n < 2 ^ 53 then n + 1 else n))] s"
    if h: "updateCard md5 now a u d s = (Returned r, s')" for r s'
  proof -
    from h obtain c where c: "hget s (addressBookKey a) ''ctag'' = Some c"
      by (cases "hget s (addressBookKey a) ''ctag''") (auto simp add: card_call_throws)
    from bumped_ctag [OF inv c] obtain n where
      n: "0 < n" "n \<le> 2 ^ 53" "stored_ctag s a = Some (Num (int n))"
        "bump c = string_of_nat (if n < 2 ^ 53 then n + 1 else n)"
        "parseInt (bump c) = Num (int (if n < 2 ^ 53 then n + 1 else n))"
      by blast
    from h updateCard_returns [OF c, of md5 now u d]
    have "s' = multi_exec
                 [HMSET (cardKey a u) [(''carddata'', d), (''lastmodified'', string_of_nat now)],
                  HSET (addressBookKey a) ''ctag'' (bump c)] s"
      by (simp add: bump_def)
    with n(4) have s': "s' = multi_exec
                 [HMSET (cardKey a u) [(''carddata'', d), (''lastmodified'', string_of_nat now)],
                  HSET (addressBookKey a) ''ctag''
                    (string_of_nat (if n < 2 ^ 53 then n + 1 else n))] s"
      by (simp only:)
    from updateCard_ctag [of md5 now a u d s a] h c
    have "stored_ctag s' a = Some (parseInt (bump c))"
      by (simp add: stored_ctag_def)
    with n(5) have "stored_ctag s' a = Some (Num (int (if n < 2 ^ 53 then n + 1 else n)))"
      by (simp only:)
    with n(1,2,3) s' show ?thesis by blast
  qed
  have delete: "\<exists>n. 0 < n \<and> n \<le> 2 ^ 53 \<and> stored_ctag s a = Some (Num (int n)) \<and>
          stored_ctag s' a = Some (Num (int (if n < 2 ^ 53 then n + 1 else n))) \<and>
          s' = multi_exec
                 [DEL (cardKey a u),
                  ZREM (addressBooksTableName @ ''/'' @ cardsTableName) u,
                  HSET (addressBookKey a) ''ctag''
                    (string_of_nat (if n < 2 ^ 53 then n + 1 else n))] s"
    if h: "deleteCard a u s = (Returned r, s')" for r s'
  proof -
    from h obtain c where c: "hget s (addressBookKey a) ''ctag'' = Some c"
      by (cases "hget s (addressBookKey a) ''ctag''") (auto simp add: card_call_throws)
    from bumped_ctag [OF inv c] obtain n where
      n: "0 < n" "n \<le> 2 ^ 53" "stored_ctag s a = Some (Num (int n))"
        "bump c = string_of_nat (if n < 2 ^ 53 then n + 1 else n)"
        "parseInt (bump c) = Num (int (if n < 2 ^ 53 then n + 1 else n))"
      by blast
    from h deleteCard_returns [OF c, of u]
    have "s' = multi_exec
                 [DEL (cardKey a u),
                  ZREM (addressBooksTableName @ ''/'' @ cardsTableName) u,
                  HSET (addressBookKey a) ''ctag'' (bump c)] s"
      by (simp add: bump_def)
    with n(4) have s': "s' = multi_exec
                 [DEL (cardKey a u),
                  ZREM (addressBooksTableName @ ''/'' @ cardsTableName) u,
                  HSET (addressBookKey a) ''ctag''
                    (string_of_nat (if n < 2 ^ 53 then n + 1 else n))] s"
      by (simp only:)
    from deleteCard_ctag [of a u s a] h c
    have "stored_ctag s' a = Some (parseInt (bump c))"
      by (simp add: stored_ctag_def)
    with n(5) have "stored_ctag s' a = Some (Num (int (if n < 2 ^ 53 then n + 1 else n)))"
      by (simp only:)
    with n(1,2,3) s' show ?thesis by blast
  qed
  have mono: "stored_ctag (store_after md5 operation s) a \<in> {None, Some (Num n), Some (Num (n + 1))}"
    if h: "stored_ctag s a = Some (Num n)" for operation n
  proof -
    from stored_ctag_Some [OF h] obtain c where
      c: "hget s (addressBookKey a) ''ctag'' = Some c" by blast
    from bumped_ctag [OF inv c] obtain k where
      k: "stored_ctag s a = Some (Num (int k))"
        "parseInt (bump c) = Num (int (if k < 2 ^ 53 then k + 1 else k))"
      by blast
    from k(1) h have n: "n = int k" by simp
    from c h have p: "parseInt c = Num n" by (simp add: stored_ctag_def)
    from store_after_ctag [OF inv c, of md5 operation]
    have "stored_ctag (store_after md5 operation s) a \<in>
        {None, Some (parseInt c), Some (parseInt (bump c))}"
      by (auto simp add: stored_ctag_def)
    with p k(2) n show ?thesis
      by (cases "k < 2 ^ 53") (auto simp add: add.commute)
  qed
  from create update delete mono show ?thesis by blast
qed

theorem ctag_counts_mutations_witness:
  "sequential alice_home \<and>
   stored_ctag alice_home 1 = Some (Num 1) \<and>
   fst (createCard (\<lambda>b. b) 1000 1 ''c1.vcf'' ''BEGIN:VCARD FN:Bob END:VCARD'' alice_home) =
     Returned (quoted_hash (\<lambda>b. b) ''BEGIN:VCARD FN:Bob END:VCARD'') \<and>
   stored_ctag (snd (createCard (\<lambda>b. b) 1000 1 ''c1.vcf'' ''BEGIN:VCARD FN:Bob END:VCARD'' alice_home)) 1 =
     Some (Num 2) \<and>
   stored_ctag (snd (updateCard (\<lambda>b. b) 1000 1 ''c1.vcf'' ''BEGIN:VCARD FN:Bob END:VCARD'' alice_home)) 1 =
     Some (Num 2) \<and>
   stored_ctag (snd (deleteCard 1 ''c1.vcf'' alice_home)) 1 = Some (Num 2) \<and>
   stored_ctag
     (store_after (\<lambda>b. b) (CreateAddressBook ''principals/alice'' ''work'' []) alice_home) 1 \<in>
     {None, Some (Num 1), Some (Num 2)}"
proof -
  let ?d = "''BEGIN:VCARD FN:Bob END:VCARD''"
  note T = ctag_counts_mutations [OF sequential_alice_home, of "\<lambda>b. b" 1000 1 "''c1.vcf''" ?d]
  have c: "stored_ctag alice_home 1 = Some (Num 1)"
    by code_simp
  have h: "hget alice_home (addressBookKey 1) ''ctag'' = Some ''1''"
    by code_simp
  have two: "int (if n < 2 ^ 53 then n + 1 else n) = 2"
    if "stored_ctag alice_home 1 = Some (Num (int n))" for n
  proof -
    from that c have "n = 1" by simp
    then show ?thesis by simp
  qed
  have cr: "createCard (\<lambda>b. b) 1000 1 ''c1.vcf'' ?d alice_home =
      (Returned (quoted_hash (\<lambda>b. b) ?d), snd (createCard (\<lambda>b. b) 1000 1 ''c1.vcf'' ?d alice_home))"
    by (simp only: createCard_returns [OF h] snd_conv)
  have up: "updateCard (\<lambda>b. b) 1000 1 ''c1.vcf'' ?d alice_home =
      (Returned (quoted_hash (\<lambda>b. b) ?d), snd (updateCard (\<lambda>b. b) 1000 1 ''c1.vcf'' ?d alice_home))"
    by (simp only: updateCard_returns [OF h] snd_conv)
  have de: "deleteCard 1 ''c1.vcf'' alice_home = (Returned True, snd (deleteCard 1 ''c1.vcf'' alice_home))"
    by (simp only: deleteCard_returns [OF h] snd_conv)
  from T cr obtain n1 where "stored_ctag alice_home 1 = Some (Num (int n1))"
    "stored_ctag (snd (createCard (\<lambda>b. b) 1000 1 ''c1.vcf'' ?d alice_home)) 1 =
       Some (Num (int (if n1 < 2 ^ 53 then n1 + 1 else n1)))"
    by blast
  with two have 1: "stored_ctag (snd (createCard (\<lambda>b. b) 1000 1 ''c1.vcf'' ?d alice_home)) 1 =
      Some (Num 2)"
    by simp
  from T up obtain n2 where "stored_ctag alice_home 1 = Some (Num (int n2))"
    "stored_ctag (snd (updateCard (\<lambda>b. b) 1000 1 ''c1.vcf'' ?d alice_home)) 1 =
       Some (Num (int (if n2 < 2 ^ 53 then n2 + 1 else n2)))"
    by blast
  with two have 2: "stored_ctag (snd (updateCard (\<lambda>b. b) 1000 1 ''c1.vcf'' ?d alice_home)) 1 =
      Some (Num 2)"
    by simp
  from T de obtain n3 where "stored_ctag alice_home 1 = Some (Num (int n3))"
    "stored_ctag (snd (deleteCard 1 ''c1.vcf'' alice_home)) 1 =
       Some (Num (int (if n3 < 2 ^ 53 then n3 + 1 else n3)))"
    by blast
  with two have 3: "stored_ctag (snd (deleteCard 1 ''c1.vcf'' alice_home)) 1 = Some (Num 2)"
    by simp
  from T c have 4: "stored_ctag
     (store_after (\<lambda>b. b) (CreateAddressBook ''principals/alice'' ''work'' []) alice_home) 1 \<in>
     {None, Some (Num 1), Some (Num (1 + 1))}"
    by blast
  have f: "fst (createCard (\<lambda>b. b) 1000 1 ''c1.vcf'' ?d alice_home) =
      Returned (quoted_hash (\<lambda>b. b) ?d)"
    by (simp only: createCard_returns [OF h] fst_conv)
  from sequential_alice_home c f 1 2 3 4 show ?thesis by simp
qed

section \<open>The ctag at the limit of the doubles\<close>

text \<open>
  Calls one after the other bring the ctag of address book 1 to every number from 1 to
  \<open>2\<^sup>5\<^sup>3\<close>; there \<^verbatim>\<open>++ctag\<close> gives \<open>2\<^sup>5\<^sup>3\<close> again, and a card mutation that succeeds leaves
  the ctag as it was.
\<close>

lemma sequential_ctag_upto:
  "0 < n \<Longrightarrow> n \<le> 2 ^ 53 \<Longrightarrow>
   \<exists>s. sequential s \<and> hget s (addressBookKey 1) ''ctag'' = Some (string_of_nat n)"
proof (induction n)
  case 0
  then show ?case by simp
next
  case (Suc n)
  show ?case
  proof (cases "n = 0")
    case True
    have "string_of_nat (Suc 0) = ''1''"
      by code_simp
    with True sequential_alice_home alice_home_ctag show ?thesis
      by auto
  next
    case False
    with Suc obtain s where s: "sequential s"
      "hget s (addressBookKey 1) ''ctag'' = Some (string_of_nat n)"
      by auto
    let ?s' = "store_after (\<lambda>b. b) (UpdateCard 1000 1 ''c1.vcf'' ''BEGIN:VCARD FN:Bob END:VCARD'') s"
    from Suc.prems have "n < 2 ^ 53" by simp
    with s(2) have "hget ?s' (addressBookKey 1) ''ctag'' = Some (string_of_nat (Suc n))"
      by (simp add: updateCard_ctag bump_numeral')
    moreover from s(1) have "sequential ?s'"
      by (rule sequential_step)
    ultimately show ?thesis by blast
  qed
qed

lemma ctag_stalls_at_limit:
  "\<exists>s. sequential s \<and> stored_ctag s 1 = Some (Num (2 ^ 53)) \<and>
     fst (updateCard (\<lambda>b. b) 1000 1 ''c1.vcf'' ''BEGIN:VCARD FN:Bob END:VCARD'' s) =
       Returned (quoted_hash (\<lambda>b. b) ''BEGIN:VCARD FN:Bob END:VCARD'') \<and>
     stored_ctag (snd (updateCard (\<lambda>b. b) 1000 1 ''c1.vcf'' ''BEGIN:VCARD FN:Bob END:VCARD'' s)) 1 =
       Some (Num (2 ^ 53))"
proof -
  have "(0::nat) < 2 ^ 53" and "(2::nat) ^ 53 \<le> 2 ^ 53"
    by simp_all
  from sequential_ctag_upto [OF this] obtain s where s: "sequential s"
    "hget s (addressBookKey 1) ''ctag'' = Some (string_of_nat (2 ^ 53))"
    by blast
  have p: "parseInt (string_of_nat (2 ^ 53)) = Num (int (2 ^ 53))"
    by (rule parseInt_string_of_nat) simp
  from s(2) p have 1: "stored_ctag s 1 = Some (Num (2 ^ 53))"
    by (simp only: stored_ctag_def option.map_sel option.simps of_nat_power of_nat_numeral)
  from s(2) have 2:
    "fst (updateCard (\<lambda>b. b) 1000 1 ''c1.vcf'' ''BEGIN:VCARD FN:Bob END:VCARD'' s) =
       Returned (quoted_hash (\<lambda>b. b) ''BEGIN:VCARD FN:Bob END:VCARD'')"
    by (simp only: updateCard_returns fst_conv)
  from s(2) have
    "hget (snd (updateCard (\<lambda>b. b) 1000 1 ''c1.vcf'' ''BEGIN:VCARD FN:Bob END:VCARD'' s))
       (addressBookKey 1) ''ctag'' = Some (bump (string_of_nat (2 ^ 53)))"
    by (simp add: updateCard_ctag)
  with p have 3:
    "stored_ctag (snd (updateCard (\<lambda>b. b) 1000 1 ''c1.vcf'' ''BEGIN:VCARD FN:Bob END:VCARD'' s)) 1 =
       Some (Num (2 ^ 53))"
    by (simp only: stored_ctag_def bump_limit' option.simps of_nat_power of_nat_numeral)
  from s(1) 1 2 3 show ?thesis by blast
qed

section \<open>Calls in flight together\<close>

text \<open>Calls one after the other are a special case.\<close>

lemma running_updateAddressBook:
  assumes r: "running s []"
  shows "running (snd (updateAddressBook a mutations s)) []"
proof (cases "updateAddressBook_loop mutations []")
  case None
  with r show ?thesis by (simp add: updateAddressBook_def)
next
  case (Some updates)
  show ?thesis
  proof (cases "updates = []")
    case True
    with r Some show ?thesis by (simp add: updateAddressBook_def)
  next
    case False
    from call_updateAddressBook [OF r Some False, of a]
    have "running s ([] @ UpdateAddressBook_hget a updates (hget s (addressBookKey a) ''ctag'') # [])"
      by simp
    from reply_updateAddressBook [OF this] Some False show ?thesis
      by (simp add: updateAddressBook_def)
  qed
qed

lemma running_createAddressBook:
  assumes r: "running s []"
  shows "running (snd (createAddressBook P url props s)) []"
proof (cases "createAddressBook_loop props
             [(''displayname'', Null), (''description'', Null),
              (''principaluri'', Str P), (''uri'', Str url)]")
  case (Inl p)
  with r show ?thesis by (simp add: createAddressBook_def)
next
  case (Inr vals)
  from call_createAddressBook [OF r Inr]
  have p: "running s ([] @ CreateAddressBook_hget P vals (hget s principalIndexKey P) # [])"
    by simp
  show ?thesis
  proof (cases "createAddressBook_hget_callback (hget s principalIndexKey P)")
    case None
    with r Inr show ?thesis by (simp add: createAddressBook_def)
  next
    case (Some ids)
    from reply_createAddressBook_hget [OF p Some]
    have "running (snd (incr idKey s))
        ([] @ CreateAddressBook_incr P vals ids (fst (incr idKey s)) # [])"
      by simp
    from reply_createAddressBook_incr [OF this] Inr Some show ?thesis
      by (simp add: createAddressBook_def case_prod_beta)
  qed
qed

lemma running_deleteAddressBook:
  assumes r: "running s []"
  shows "running (snd (deleteAddressBook a s)) []"
proof (cases "hget s (addressBookKey a) ''pricipaluri''")
  case None
  with r show ?thesis by (simp add: deleteAddressBook_def)
next
  case (Some P)
  from call_deleteAddressBook [OF r, of a] Some
  have "running s ([] @ DeleteAddressBook_hget a (deleteAddressBook_commands a) (Some P) # [])"
    by simp
  from reply_deleteAddressBook_hget [OF this]
  have p: "running s
      ([] @ DeleteAddressBook_index a P (deleteAddressBook_commands a) (hget s principalIndexKey P) # [])"
    by simp
  show ?thesis
  proof (cases "deleteAddressBook_index_callback a P (deleteAddressBook_commands a)
      (hget s principalIndexKey P)")
    case None
    with r Some show ?thesis by (simp add: deleteAddressBook_def)
  next
    case (Some commands)
    from reply_deleteAddressBook_index [OF p Some]
    have "running s ([] @ DeleteAddressBook_zrange a commands (zrange_all s (bookCardsKey a)) # [])"
      by simp
    from reply_deleteAddressBook_zrange [OF this] Some \<open>hget s (addressBookKey a) ''pricipaluri'' = Some P\<close>
    show ?thesis
      by (simp add: deleteAddressBook_def)
  qed
qed

lemma running_createCard:
  assumes r: "running s []"
  shows "running (snd (createCard md5 now a u d s)) []"
proof -
  from call_createCard [OF r, of a d now u]
  have "running s ([] @ CreateCard_hget a d (createCard_commands now a u d)
      (hget s (addressBookKey a) ''ctag'') # [])"
    by simp
  from reply_createCard [OF this, of md5] show ?thesis
    by (simp add: createCard_def)
qed

lemma running_updateCard:
  assumes r: "running s []"
  shows "running (snd (updateCard md5 now a u d s)) []"
proof -
  from call_updateCard [OF r, of a d now u]
  have "running s ([] @ UpdateCard_hget a d (updateCard_commands now a u d)
      (hget s (addressBookKey a) ''ctag'') # [])"
    by simp
  from reply_updateCard [OF this, of md5] show ?thesis
    by (simp add: updateCard_def)
qed

lemma running_deleteCard:
  assumes r: "running s []"
  shows "running (snd (deleteCard a u s)) []"
proof -
  from call_deleteCard [OF r, of a u]
  have "running s ([] @ DeleteCard_hget a (deleteCard_commands a u)
      (hget s (addressBookKey a) ''ctag'') # [])"
    by simp
  from reply_deleteCard [OF this] show ?thesis
    by (simp add: deleteCard_def)
qed

lemma running_store_after: "running s [] \<Longrightarrow> running (store_after md5 operation s) []"
  by (cases operation)
    (simp_all add: running_updateAddressBook running_createAddressBook running_deleteAddressBook
      running_createCard running_updateCard running_deleteCard)

lemma sequential_running: "sequential s \<Longrightarrow> running s []"
  by (induction rule: sequential.induct) (simp_all add: running_empty running_store_after)

lemma sequential_reachable: "sequential s \<Longrightarrow> reachable s"
  unfolding reachable_def using sequential_running by blast

text \<open>
  Counterexample to C1 as the specification states it, with two calls in flight. Two
  \<^verbatim>\<open>createCard\<close> calls on address book 1 of \<open>alice_home\<close> both have their \<^verbatim>\<open>HGET\<close> of the
  ctag answered with \<^verbatim>\<open>1\<close>; then each callback submits its batch. Both calls succeed,
  and the ctag is 1, then 2, then 2: the second call does not increase it.
\<close>

theorem ctag_update_lost:
  "running alice_home
     [CreateCard_hget 1 ''BEGIN:VCARD FN:Carol END:VCARD''
        (createCard_commands 2000 1 ''c2.vcf'' ''BEGIN:VCARD FN:Carol END:VCARD'') (Some ''1''),
      CreateCard_hget 1 ''BEGIN:VCARD FN:Bob END:VCARD''
        (createCard_commands 1000 1 ''c1.vcf'' ''BEGIN:VCARD FN:Bob END:VCARD'') (Some ''1'')] \<and>
   running first_batch
     [CreateCard_hget 1 ''BEGIN:VCARD FN:Carol END:VCARD''
        (createCard_commands 2000 1 ''c2.vcf'' ''BEGIN:VCARD FN:Carol END:VCARD'') (Some ''1'')] \<and>
   running second_batch [] \<and>
   createCard_callback (\<lambda>b. b) 1 ''BEGIN:VCARD FN:Bob END:VCARD''
       (createCard_commands 1000 1 ''c1.vcf'' ''BEGIN:VCARD FN:Bob END:VCARD'') (Some ''1'')
       alice_home =
     (Returned (quoted_hash (\<lambda>b. b) ''BEGIN:VCARD FN:Bob END:VCARD''), first_batch) \<and>
   createCard_callback (\<lambda>b. b) 1 ''BEGIN:VCARD FN:Carol END:VCARD''
       (createCard_commands 2000 1 ''c2.vcf'' ''BEGIN:VCARD FN:Carol END:VCARD'') (Some ''1'')
       first_batch =
     (Returned (quoted_hash (\<lambda>b. b) ''BEGIN:VCARD FN:Carol END:VCARD''), second_batch) \<and>
   stored_ctag alice_home 1 = Some (Num 1) \<and>
   stored_ctag first_batch 1 = Some (Num 2) \<and>
   stored_ctag second_batch 1 = Some (Num 2)"
proof -
  let ?bob = "''BEGIN:VCARD FN:Bob END:VCARD''"
  let ?carol = "''BEGIN:VCARD FN:Carol END:VCARD''"
  let ?p1 = "CreateCard_hget 1 ?bob (createCard_commands 1000 1 ''c1.vcf'' ?bob) (Some ''1'')"
  let ?p2 = "CreateCard_hget 1 ?carol (createCard_commands 2000 1 ''c2.vcf'' ?carol) (Some ''1'')"
  have fb: "first_batch =
      snd (createCard_callback (\<lambda>b. b) 1 ?bob (createCard_commands 1000 1 ''c1.vcf'' ?bob)
             (Some ''1'') alice_home)"
    by (simp only: first_batch_def alice_home_ctag)
  have sb: "second_batch =
      snd (createCard_callback (\<lambda>b. b) 1 ?carol (createCard_commands 2000 1 ''c2.vcf'' ?carol)
             (Some ''1'') first_batch)"
    by (simp only: second_batch_def alice_home_ctag)
  have r0: "running alice_home []"
    using sequential_alice_home by (rule sequential_running)
  from call_createCard [OF r0, of 1 ?bob 1000 "''c1.vcf''"]
  have r1: "running alice_home [?p1]"
    by (simp only: alice_home_ctag)
  from call_createCard [OF r1, of 1 ?carol 2000 "''c2.vcf''"]
  have r2: "running alice_home [?p2, ?p1]"
    by (simp only: alice_home_ctag)
  then have "running alice_home ([?p2] @ ?p1 # [])"
    by simp
  from reply_createCard [OF this, of "\<lambda>b. b"]
  have r3: "running first_batch [?p2]"
    by (simp only: fb [symmetric] append.simps)
  then have "running first_batch ([] @ ?p2 # [])"
    by simp
  from reply_createCard [OF this, of "\<lambda>b. b"]
  have r4: "running second_batch []"
    by (simp only: sb [symmetric] append.simps)
  have c1: "createCard_callback (\<lambda>b. b) 1 ?bob (createCard_commands 1000 1 ''c1.vcf'' ?bob)
      (Some ''1'') alice_home = (Returned (quoted_hash (\<lambda>b. b) ?bob), first_batch)"
    by (simp add: fb createCard_callback_def quoted_hash_def Let_def)
  have c2: "createCard_callback (\<lambda>b. b) 1 ?carol (createCard_commands 2000 1 ''c2.vcf'' ?carol)
      (Some ''1'') first_batch = (Returned (quoted_hash (\<lambda>b. b) ?carol), second_batch)"
    by (simp add: sb createCard_callback_def quoted_hash_def Let_def)
  have t0: "stored_ctag alice_home 1 = Some (Num 1)"
    by code_simp
  have t1: "stored_ctag first_batch 1 = Some (Num 2)"
    by code_simp
  have t2: "stored_ctag second_batch 1 = Some (Num 2)"
    by code_simp
  from r2 r3 r4 c1 c2 t0 t1 t2 show ?thesis
    by blast
qed

section \<open>What no history brings about\<close>

lemma index_inv_empty: "index_inv empty_store"
  by (simp add: index_inv_def empty_store_def hget_def)

lemma index_invI:
  assumes "index_inv s"
    and "\<And>b. hget s' (addressBookKey b) ''pricipaluri'' = hget s (addressBookKey b) ''pricipaluri''"
    and "\<And>b. zsets s' (bookCardsKey b) = zsets s (bookCardsKey b)"
    and "\<And>P. hget s' principalIndexKey P = hget s principalIndexKey P \<or>
        (\<exists>ids. hget s' principalIndexKey P = Some (JSON_stringify ids))"
  shows "index_inv s'"
  unfolding index_inv_def
proof (intro conjI allI impI)
  fix a show "hget s' (addressBookKey a) ''pricipaluri'' = None"
    using assms(1,2) by (simp add: index_inv_def)
next
  fix a show "zsets s' (bookCardsKey a) = []"
    using assms(1,3) by (simp add: index_inv_def)
next
  fix P v assume "hget s' principalIndexKey P = Some v"
  with assms(4) [of P] assms(1) show "\<exists>ids. v = JSON_stringify ids"
    unfolding index_inv_def by auto
qed

text \<open>Every callback keeps the invariant, whatever reply it is given.\<close>

lemma index_inv_createCard_callback:
  "index_inv s \<Longrightarrow>
   index_inv (snd (createCard_callback md5 a d (createCard_commands now a u d) res s))"
  by (cases res)
    (auto simp add: createCard_callback_def createCard_commands_def Let_def multi_exec_def hget_def
      intro!: index_invI [of s])

lemma index_inv_updateCard_callback:
  "index_inv s \<Longrightarrow>
   index_inv (snd (updateCard_callback md5 a d (updateCard_commands now a u d) res s))"
  by (cases res)
    (auto simp add: updateCard_callback_def updateCard_commands_def Let_def multi_exec_def hget_def
      intro!: index_invI [of s])

lemma index_inv_deleteCard_callback:
  "index_inv s \<Longrightarrow> index_inv (snd (deleteCard_callback a (deleteCard_commands a u) res s))"
  by (cases res)
    (auto simp add: deleteCard_callback_def deleteCard_commands_def Let_def multi_exec_def hget_def
      intro!: index_invI [of s])

lemma index_inv_updateAddressBook_callback:
  assumes "index_inv s" and "updateAddressBook_loop mutations [] = Some updates"
  shows "index_inv (snd (updateAddressBook_callback a updates res s))"
proof -
  from updateAddressBook_loop_fields [OF assms(2)]
  have "''pricipaluri'' \<notin> fst ` set updates" by auto
  then have "''pricipaluri'' \<notin> fst ` set (map (\<lambda>(p, v). (p, String_val v)) updates)"
    by (auto simp add: image_iff)
  from fold_upd_other [OF this] assms(1) show ?thesis
    by (cases res)
      (auto simp add: updateAddressBook_callback_def Let_def hget_def intro!: index_invI [of s])
qed

lemma index_inv_incr: "index_inv s \<Longrightarrow> index_inv (snd (incr idKey s))"
  by (simp add: index_inv_def incr_def hget_def Let_def split: option.splits)

lemma index_inv_createAddressBook_incr_callback:
  assumes "index_inv s"
    and "createAddressBook_loop props
           [(''displayname'', Null), (''description'', Null),
            (''principaluri'', Str P), (''uri'', Str url)] = Inr vals"
  shows "index_inv (snd (createAddressBook_incr_callback P vals ids new_id s))"
proof -
  from createAddressBook_loop_fields [OF assms(2)]
  have "''pricipaluri'' \<notin> fst ` set vals" by auto
  then have f: "''pricipaluri'' \<notin> fst ` set (map (\<lambda>(p, v). (p, String_val v)) vals)"
    by (auto simp add: image_iff)
  let ?s' = "snd (createAddressBook_incr_callback P vals ids new_id s)"
  show ?thesis
  proof (rule index_invI [OF assms(1)])
    fix b
    show "hget ?s' (addressBookKey b) ''pricipaluri'' = hget s (addressBookKey b) ''pricipaluri''"
      using fold_upd_other [OF f]
      by (simp add: createAddressBook_incr_callback_def Let_def multi_exec_def hget_def)
    show "zsets ?s' (bookCardsKey b) = zsets s (bookCardsKey b)"
      by (simp add: createAddressBook_incr_callback_def Let_def multi_exec_def)
  next
    fix Q
    show "hget ?s' principalIndexKey Q = hget s principalIndexKey Q \<or>
        (\<exists>is. hget ?s' principalIndexKey Q = Some (JSON_stringify is))"
    proof (cases "Q = P")
      case True
      then have "hget ?s' principalIndexKey Q = Some (JSON_stringify (ids @ [new_id]))"
        by (simp add: createAddressBook_incr_callback_def Let_def multi_exec_def hget_def)
      then show ?thesis by blast
    next
      case False
      then have "hget ?s' principalIndexKey Q = hget s principalIndexKey Q"
        by (simp add: createAddressBook_incr_callback_def Let_def multi_exec_def hget_def)
      then show ?thesis by blast
    qed
  qed
qed

lemma index_inv_parses:
  assumes "index_inv s"
  shows "parse_reply (hget s principalIndexKey P) \<noteq> OtherJSON"
proof (cases "hget s principalIndexKey P")
  case None
  then show ?thesis by (simp add: parse_reply_def)
next
  case (Some v)
  with assms obtain ids where "v = JSON_stringify ids"
    unfolding index_inv_def by blast
  with Some show ?thesis by (simp add: parse_reply_def)
qed

lemma index_inv_hget_callback:
  "index_inv s \<Longrightarrow> createAddressBook_hget_callback (hget s principalIndexKey P) \<noteq> None"
  using index_inv_parses [of s P]
  by (cases "parse_reply (hget s principalIndexKey P)")
    (simp_all add: createAddressBook_hget_callback_def)

text \<open>The invariant holds of every store, and of every reply that waits.\<close>

lemma running_inv: "running s ps \<Longrightarrow> index_inv s \<and> (\<forall>p \<in> set ps. pending_inv p)"
proof (induction rule: running.induct)
  case running_empty
  then show ?case by (simp add: index_inv_empty)
next
  case (call_updateAddressBook s ps mutations updates addressBookId)
  then show ?case by auto
next
  case (reply_updateAddressBook s ps addressBookId updates res ps')
  then show ?case by (auto intro: index_inv_updateAddressBook_callback)
next
  case (call_createAddressBook s ps properties principalUri url vals)
  then show ?case by (auto simp add: index_inv_hget_callback)
next
  case (reply_createAddressBook_hget s ps principalUri vals res ps' ids)
  then show ?case by (auto intro: index_inv_incr)
next
  case (reply_createAddressBook_incr s ps principalUri vals ids new_id ps')
  then show ?case by (auto intro: index_inv_createAddressBook_incr_callback)
next
  case (call_deleteAddressBook s ps addressBookId)
  then show ?case by (simp add: index_inv_def)
next
  case (reply_deleteAddressBook_hget s ps addressBookId commands principalUri ps')
  then show ?case by simp
next
  case (reply_deleteAddressBook_index s ps addressBookId principalUri commands res ps' commands')
  then show ?case by simp
next
  case (reply_deleteAddressBook_zrange s ps addressBookId commands res ps')
  then show ?case by simp
next
  case (call_createCard s ps addressBookId cardData now cardUri)
  then show ?case by auto
next
  case (reply_createCard s ps addressBookId cardData commands res ps' md5)
  then show ?case by (auto intro: index_inv_createCard_callback)
next
  case (call_updateCard s ps addressBookId cardData now cardUri)
  then show ?case by auto
next
  case (reply_updateCard s ps addressBookId cardData commands res ps' md5)
  then show ?case by (auto intro: index_inv_updateCard_callback)
next
  case (call_deleteCard s ps addressBookId cardUri)
  then show ?case by auto
next
  case (reply_deleteCard s ps addressBookId commands res ps')
  then show ?case by (auto intro: index_inv_deleteCard_callback)
qed

lemma reachable_index_inv: "reachable s \<Longrightarrow> index_inv s"
  unfolding reachable_def using running_inv by blast

lemma reachable_alice_cards: "reachable alice_cards"
proof -
  let ?s1 = "store_after (\<lambda>b. b)
      (CreateCard 1000 1 ''c1.vcf'' ''BEGIN:VCARD FN:Bob END:VCARD'') alice_home"
  have "sequential ?s1"
    using sequential_alice_home by (rule sequential_step)
  then have "sequential (store_after (\<lambda>b. b)
      (CreateCard 2000 1 ''c2.vcf'' ''BEGIN:VCARD FN:Carol END:VCARD'') ?s1)"
    by (rule sequential_step)
  then have "sequential alice_cards" by (simp add: alice_cards_def)
  then show ?thesis by (rule sequential_reachable)
qed

text \<open>
  In every store that calls bring about, in flight together or not,
  \<^verbatim>\<open>deleteAddressBook\<close> raises for every id, and deletes nothing: the field
  \<^verbatim>\<open>pricipaluri\<close> it reads is never written.
\<close>

theorem reachable_deleteAddressBook_throws:
  "reachable s \<Longrightarrow> deleteAddressBook a s = (Thrown TypeError, s)"
  using reachable_index_inv [of s] by (simp add: index_inv_def deleteAddressBook_throws)

theorem reachable_deleteAddressBook_throws_witness:
  "reachable alice_cards \<and> deleteAddressBook 1 alice_cards = (Thrown TypeError, alice_cards)"
  using reachable_deleteAddressBook_throws [OF reachable_alice_cards, of 1] reachable_alice_cards
  by simp

text \<open>
  In every store that calls bring about, in flight together or not, \<^verbatim>\<open>getCards\<close>
  returns the empty list for every address book: no call adds a member to the sorted
  set it reads.
\<close>

theorem reachable_getCards_empty: "reachable s \<Longrightarrow> getCards a s = Returned []"
  using reachable_index_inv [of s]
  by (simp add: index_inv_def getCards_def zrange_all_def fromMultiBulk_def multi_hmget_def)

theorem reachable_getCards_empty_witness:
  "reachable alice_cards \<and> getCards 1 alice_cards = Returned []"
  using reachable_getCards_empty [OF reachable_alice_cards, of 1] reachable_alice_cards
  by simp

text \<open>
  In every store that calls bring about, in flight together or not, the id set of
  every principal is absent or reads back as the id array that was written: no call
  meets index data of a shape the model leaves out.
\<close>

theorem reachable_index_parses:
  "reachable s \<Longrightarrow>
   parse_reply (hget s principalIndexKey P) \<noteq> OtherJSON \<and>
   getAddressBooksForUser P s \<noteq> Unmodelled \<and>
   fst (createAddressBook P url props s) \<noteq> Unmodelled \<and>
   fst (deleteAddressBook a s) \<noteq> Unmodelled"
proof -
  assume r: "reachable s"
  have p: "parse_reply (hget s principalIndexKey P) \<noteq> OtherJSON"
  proof (cases "hget s principalIndexKey P")
    case None
    then show ?thesis by (simp add: parse_reply_def)
  next
    case (Some v)
    with reachable_index_inv [OF r] obtain ids where "v = JSON_stringify ids"
      unfolding index_inv_def by blast
    with Some show ?thesis by (simp add: parse_reply_def)
  qed
  then have "getAddressBooksForUser P s \<noteq> Unmodelled"
    by (cases "parse_reply (hget s principalIndexKey P)")
      (simp_all add: getAddressBooksForUser_def Let_def)
  moreover from p have "fst (createAddressBook P url props s) \<noteq> Unmodelled"
    by (cases "parse_reply (hget s principalIndexKey P)")
      (simp_all add: createAddressBook_unfold Let_def incr_def split: sum.splits)
  moreover have "fst (deleteAddressBook a s) \<noteq> Unmodelled"
    by (simp add: reachable_deleteAddressBook_throws [OF r])
  ultimately show ?thesis using p by simp
qed

theorem reachable_index_parses_witness:
  "reachable alice_cards \<and>
   parse_reply (hget alice_cards principalIndexKey ''principals/alice'') = IdArray [1] \<and>
   getAddressBooksForUser ''principals/alice'' alice_cards \<noteq> Unmodelled \<and>
   fst (createAddressBook ''principals/alice'' ''work'' [] alice_cards) \<noteq> Unmodelled \<and>
   fst (deleteAddressBook 1 alice_cards) \<noteq> Unmodelled"
proof -
  have "parse_reply (hget alice_cards principalIndexKey ''principals/alice'') = IdArray [1]"
    by code_simp
  with reachable_index_parses [OF reachable_alice_cards, of "''principals/alice''" "''work''" "[]" 1]
    reachable_alice_cards
  show ?thesis by simp
qed

end
